theory Spec2Isabelle
  imports Complex_Main
begin

section \<open>Integer polynomials as coefficient lists\<close>

text \<open>
  The module \<^verbatim>\<open>sage/combinat/q_analogues.py\<close> computes with elements of a ring: Sage
  integers, rationals, elements of \<^verbatim>\<open>ZZ['q']\<close>.  The functions of the module are
  embedded polymorphically over a commutative ring \<open>'a\<close> with a division; the theorems
  that need the division to be exact are about the class \<open>idom_divide\<close>.  The
  polynomial ring \<^verbatim>\<open>ZZ['q']\<close> itself is built here from coefficient lists (constant
  coefficient first), because the cyclotomic polynomials the module asks Sage for are
  elements of it.
\<close>

primrec peval :: "int list \<Rightarrow> 'a::comm_ring_1 \<Rightarrow> 'a" where
  "peval [] x = 0"
| "peval (a # p) x = of_int a + x * peval p x"

fun padd :: "int list \<Rightarrow> int list \<Rightarrow> int list" where
  "padd [] q = q"
| "padd p [] = p"
| "padd (a # p) (b # q) = (a + b) # padd p q"

definition smult :: "int \<Rightarrow> int list \<Rightarrow> int list" where
  "smult c p = map (\<lambda>a. c * a) p"

definition psub :: "int list \<Rightarrow> int list \<Rightarrow> int list" where
  "psub p q = padd p (smult (- 1) q)"

primrec pmul :: "int list \<Rightarrow> int list \<Rightarrow> int list" where
  "pmul [] q = []"
| "pmul (a # p) q = padd (smult a q) (0 # pmul p q)"

text \<open>\<open>strip\<close> removes the zero coefficients at the top of a list.\<close>

primrec strip :: "int list \<Rightarrow> int list" where
  "strip [] = []"
| "strip (a # p) = (if a = 0 \<and> strip p = [] then [] else a # strip p)"

text \<open>
  Division with remainder, by recursion on the dividend \<open>a + x * p\<close>: its quotient
  and remainder come from those of \<open>p\<close>.  The leading coefficient of the remainder's
  candidate is divided by the divisor's (an exact division when the divisor is monic).
\<close>

primrec pdivmod :: "int list \<Rightarrow> int list \<Rightarrow> int list \<times> int list" where
  "pdivmod [] b = ([], [])"
| "pdivmod (a # p) b =
     (let (q, r) = pdivmod p b; s = a # r in
      if length s < length b then (0 # q, s)
      else let c = last s div last b in (c # q, butlast (psub s (smult c b))))"

definition pquot :: "int list \<Rightarrow> int list \<Rightarrow> int list" where
  "pquot p b = (if strip b = [] then [] else strip (fst (pdivmod p (strip b))))"

definition pprod :: "int list list \<Rightarrow> int list" where
  "pprod ps = foldr pmul ps [1]"

definition xn_minus_1 :: "nat \<Rightarrow> int list" where
  "xn_minus_1 n = (if n = 0 then [] else (- 1) # replicate (n - 1) 0 @ [1])"

section \<open>Cyclotomic polynomials\<close>

text \<open>
  Modelled from the spec: \<^verbatim>\<open>sage.rings.polynomial.cyclotomic\<close> is not among the sources.
  The spec calls \<^verbatim>\<open>cyclotomic_value(d, q)\<close> ``the value of the d-th cyclotomic polynomial
  evaluated at q''.  The d-th cyclotomic polynomial is computed by its defining
  recursion: \<open>x^n - 1\<close> divided by the cyclotomic polynomials of the proper divisors of
  \<open>n\<close>.
\<close>

function cyclotomic_poly :: "nat \<Rightarrow> int list" where
  "cyclotomic_poly n =
     (if n = 0 then []
      else pquot (xn_minus_1 n) (pprod (map cyclotomic_poly (filter (\<lambda>d. d dvd n) [1..<n]))))"
  by pat_completeness auto
termination
  by (relation "measure (\<lambda>n. n)") auto

declare cyclotomic_poly.simps [simp del]

text \<open>
  Modelled from the spec: \<^verbatim>\<open>cyclotomic_value(d, q)\<close>, the d-th cyclotomic polynomial
  evaluated at \<open>q\<close>.
\<close>

definition cyclotomic_value :: "nat \<Rightarrow> 'a::comm_ring_1 \<Rightarrow> 'a" where
  "cyclotomic_value d q = peval (cyclotomic_poly d) q"

section \<open>The functions of \<^verbatim>\<open>q_analogues.py\<close>\<close>

text \<open>
  Errors are values.  A \<^verbatim>\<open>ValueError\<close> keeps the message of the source and the
  arguments its format fills in; \<^verbatim>\<open>ZeroDivisionError\<close> is what a division by zero and
  a negative power of zero raise.
\<close>

datatype error = ValueError string "rat list" | ZeroDivisionError

text \<open>
  The arguments \<open>n\<close> and \<open>k\<close> are rationals, so that the test \<^verbatim>\<open>n in ZZ\<close> of the
  source is a branch of the model: a Sage integer is a rational with denominator one.
\<close>

definition in_ZZ :: "rat \<Rightarrow> bool" where
  "in_ZZ x = (of_int \<lfloor>x\<rfloor> = x)"

text \<open>A list comprehension whose elements may raise: the first error is the result.\<close>

primrec collect :: "('e + 'a) list \<Rightarrow> 'e + 'a list" where
  "collect [] = Inr []"
| "collect (x # xs) =
     (case x of
        Inl e \<Rightarrow> Inl e
      | Inr v \<Rightarrow> (case collect xs of Inl e \<Rightarrow> Inl e | Inr vs \<Rightarrow> Inr (v # vs)))"

subsection \<open>\<^verbatim>\<open>q_int\<close> and \<^verbatim>\<open>q_factorial\<close>\<close>

text \<open>
  The second argument is given: the default of the source, the generator of
  \<^verbatim>\<open>ZZ['q']\<close>, is the instance of the model at the polynomial type below.  For a
  negative \<open>n\<close> the source computes \<^verbatim>\<open>p**n\<close> in the fraction field of the ring of
  \<open>p\<close>; \<open>1 div p ^ m\<close> is that inverse when \<open>'a\<close> is a field.
\<close>

definition q_int :: "rat \<Rightarrow> 'a::{comm_ring_1,divide} \<Rightarrow> error + 'a" where
  "q_int n p =
     (if \<not> in_ZZ n then Inl (ValueError ''%s must be an integer'' [n])
      else if n \<ge> 0 then Inr (sum_list (map (\<lambda>i. p ^ i) [0..<nat \<lfloor>n\<rfloor>]))
      else if p = 0 then Inl ZeroDivisionError
      else Inr (- (1 div p ^ nat \<lfloor>- n\<rfloor>) * sum_list (map (\<lambda>i. p ^ i) [0..<nat \<lfloor>- n\<rfloor>])))"

definition q_factorial :: "rat \<Rightarrow> 'a::{comm_ring_1,divide} \<Rightarrow> error + 'a" where
  "q_factorial n p =
     (if in_ZZ n \<and> n \<ge> 0 then
        (case collect (map (\<lambda>i. q_int (of_int i) p) [1..\<lfloor>n\<rfloor>]) of
           Inl e \<Rightarrow> Inl e
         | Inr vs \<Rightarrow> Inr (prod_list vs))
      else Inl (ValueError ''Argument (%s) must be a nonnegative integer.'' [n]))"

subsection \<open>\<^verbatim>\<open>q_binomial\<close>\<close>

text \<open>
  What the source finds out about \<open>q\<close> by \<^verbatim>\<open>isinstance(q, Polynomial)\<close> and
  \<^verbatim>\<open>q in SR\<close> is an argument of the model: \<open>Polynomial g\<close> says that \<open>q\<close> is a
  polynomial whose parent ring has the generator \<open>g\<close>, \<open>Symbolic\<close> that it is no
  polynomial and lies in the symbolic ring, \<open>Other\<close> that it is neither.  The default
  \<^verbatim>\<open>q = None\<close> of the source is \<open>q = g\<close> with \<open>Polynomial g\<close>.
\<close>

datatype 'a qkind = Polynomial 'a | Symbolic | Other

text \<open>The algorithm chosen; \<open>cyclo_polynomial\<close> carries the generator of \<^verbatim>\<open>q.parent()\<close>.\<close>

datatype 'a algo = naive | cyclo_generic | cyclo_polynomial 'a

text \<open>
  Lines 217 to 225.  \<^verbatim>\<open>n/4\<close> is the exact quotient of Sage integers, a rational.
\<close>

definition choose_algo :: "int \<Rightarrow> int \<Rightarrow> 'a qkind \<Rightarrow> 'a algo" where
  "choose_algo n k kind =
     (case kind of
        Polynomial g \<Rightarrow>
          if n \<le> 70 \<or> (of_int k :: rat) \<le> of_int n / 4 then naive else cyclo_polynomial g
      | Symbolic \<Rightarrow> cyclo_generic
      | Other \<Rightarrow> naive)"

definition naive_denominator :: "'a::{comm_ring_1,divide} \<Rightarrow> int \<Rightarrow> 'a" where
  "naive_denominator q k = prod_list (map (\<lambda>i. 1 - q ^ nat i) [1..k])"

definition naive_numerator :: "'a::{comm_ring_1,divide} \<Rightarrow> int \<Rightarrow> int \<Rightarrow> 'a" where
  "naive_numerator q n k = prod_list (map (\<lambda>i. 1 - q ^ nat i) [n - k + 1..n])"

text \<open>
  Lines 228 to 237: \<open>None\<close> is the fall through to the cyclotomic algorithm when the
  denominator is zero.  \<open>div\<close> is \<^verbatim>\<open>//\<close> where the ring has it and \<^verbatim>\<open>/\<close> in a field.
\<close>

definition naive_step :: "'a::{comm_ring_1,divide} \<Rightarrow> int \<Rightarrow> int \<Rightarrow> 'a option" where
  "naive_step q n k =
     (let denomin = naive_denominator q k in
      if denomin = 0 then None
      else let numerat = naive_numerator q n k in Some (numerat div denomin))"

text \<open>
  The indices \<open>d\<close> of \<^verbatim>\<open>range(2, n+1)\<close> that pass the test
  \<^verbatim>\<open>floor(n/d) != floor(k/d) + floor((n-k)/d)\<close>.
\<close>

definition cyclo_index :: "int \<Rightarrow> int \<Rightarrow> int list" where
  "cyclo_index n k =
     filter (\<lambda>d. \<lfloor>of_int n / of_int d :: rat\<rfloor>
                  \<noteq> \<lfloor>of_int k / of_int d :: rat\<rfloor> + \<lfloor>of_int (n - k) / of_int d :: rat\<rfloor>)
       [2..n]"

text \<open>
  Lines 241 to 243 at \<open>x = q\<close>.  Lines 246 to 248 at \<open>x = g\<close>, the generator of
  \<^verbatim>\<open>R = q.parent()\<close>: \<^verbatim>\<open>R.cyclotomic_polynomial(d)\<close> is the d-th cyclotomic polynomial in
  the variable of \<open>R\<close> (modelled from the spec: the method is not among the sources).
\<close>

definition cyclo_product :: "int \<Rightarrow> int \<Rightarrow> 'a::comm_ring_1 \<Rightarrow> 'a" where
  "cyclo_product n k x = prod_list (map (\<lambda>d. cyclotomic_value (nat d) x) (cyclo_index n k))"

definition q_binomial :: "rat \<Rightarrow> rat \<Rightarrow> 'a qkind \<Rightarrow> 'a::{comm_ring_1,divide} \<Rightarrow> error + 'a" where
  "q_binomial n k kind q =
     (if \<not> (in_ZZ n \<and> in_ZZ k) then
        Inl (ValueError ''arguments (%s, %s) must be integers'' [n, k])
      else if n < 0 then Inl (ValueError ''n must be nonnegative'' [])
      else if \<not> (0 \<le> k \<and> k \<le> n) then Inr 0
      else
        let n' = \<lfloor>n\<rfloor>; k' = min (\<lfloor>n\<rfloor> - \<lfloor>k\<rfloor>) \<lfloor>k\<rfloor> in
        (case choose_algo n' k' kind of
           naive \<Rightarrow>
             (case naive_step q n' k' of
                Some v \<Rightarrow> Inr v
              | None \<Rightarrow> Inr (cyclo_product n' k' q))
         | cyclo_generic \<Rightarrow> Inr (cyclo_product n' k' q)
         | cyclo_polynomial g \<Rightarrow> Inr (cyclo_product n' k' g)))"

subsection \<open>\<^verbatim>\<open>q_catalan_number\<close>\<close>

text \<open>
  \<^verbatim>\<open>/\<close> raises on a zero divisor; otherwise \<open>div\<close> is the quotient whenever the
  division is exact in \<open>'a\<close>, and in every field.
\<close>

definition q_catalan_number :: "rat \<Rightarrow> 'a::{comm_ring_1,divide} \<Rightarrow> error + 'a" where
  "q_catalan_number n p =
     (if in_ZZ n \<and> n \<ge> 0 then
        (case collect (map (\<lambda>j. q_int (of_int j) p) [\<lfloor>n\<rfloor> + 2..2 * \<lfloor>n\<rfloor>]) of
           Inl e \<Rightarrow> Inl e
         | Inr nums \<Rightarrow>
             (case collect (map (\<lambda>j. q_int (of_int j) p) [2..\<lfloor>n\<rfloor>]) of
                Inl e \<Rightarrow> Inl e
              | Inr dens \<Rightarrow>
                  if prod_list dens = 0 then Inl ZeroDivisionError
                  else Inr (prod_list nums div prod_list dens)))
      else Inl (ValueError ''Argument (%s) must be a nonnegative integer.'' [n]))"

subsection \<open>\<^verbatim>\<open>q_jordan\<close>\<close>

text \<open>
  Modelled from the spec: the class \<^verbatim>\<open>Partition\<close> is not among the sources.  A partition
  is the list of its parts; building one from a list drops the parts that became zero.
\<close>

definition Partition :: "nat list \<Rightarrow> nat list" where
  "Partition tp = filter (\<lambda>x. x \<noteq> 0) tp"

lemma sum_list_Partition: "sum_list (Partition xs) = sum_list xs"
  by (induction xs) (simp_all add: Partition_def)

lemma sum_list_decrement:
  assumes "i < length t" and "0 < t ! i"
  shows "sum_list (Partition (t[i := t ! i - 1])) + 1 = sum_list t"
proof -
  have "t ! i \<le> sum_list t"
    using assms(1) by (simp add: elem_le_sum_list)
  with assms show ?thesis
    by (simp add: sum_list_Partition sum_list_update)
qed

text \<open>
  The loop of lines 384 to 390 is a fold over the indices \<^verbatim>\<open>len(t)-1, ..., 0\<close> with the
  state \<open>(tj, res)\<close>.  The decorator \<^verbatim>\<open>cached_function\<close> stores results only: the
  function is pure, and a call that raises stores nothing.
\<close>

function q_jordan :: "nat list \<Rightarrow> 'a::{comm_ring_1,divide} \<Rightarrow> error + 'a" where
  "q_jordan t q =
     (if q = 1 then Inl (ValueError ''q must not be equal to 1'' [])
      else if length t = 0 then Inr 1
      else
        map_sum id snd
          (fold (\<lambda>i st.
                  case st of
                    Inl e \<Rightarrow> Inl e
                  | Inr (tj, res) \<Rightarrow>
                      let ti = t ! i in
                      if ti > tj then
                        (case q_jordan (Partition (t[i := ti - 1])) q of
                           Inl e \<Rightarrow> Inl e
                         | Inr v \<Rightarrow> Inr (ti, res + v * ((q ^ ti - q ^ tj) div (q - 1))))
                      else Inr (tj, res))
             (rev [0..<length t]) (Inr (0, 0))))"
  by pat_completeness auto
termination q_jordan
proof (relation "measure (\<lambda>(t, q). sum_list t)")
  show "wf (measure (\<lambda>(t, q::'a). sum_list t))" by simp
next
  fix t :: "nat list" and q :: 'a and i tj ti
  assume "i \<in> set (rev [0..<length t])" and "ti = t ! i" and "tj < ti"
  then have "sum_list (Partition (t[i := t ! i - 1])) + 1 = sum_list t"
    by (intro sum_list_decrement) auto
  then show "((Partition (t[i := ti - 1]), q), t, q) \<in> measure (\<lambda>(t, q). sum_list t)"
    using \<open>ti = t ! i\<close> by simp
qed

declare q_jordan.simps [simp del]

section \<open>The examples of the docstrings\<close>

text \<open>The model computes what the docstrings of the source show.\<close>

lemma docstring_q_binomial:
  "q_binomial 5 1 Other (2::int) = Inr 31"
  "q_binomial 5 1 Other (1::int) = Inr 5"
  "q_binomial 4 2 Other (- 1::int) = Inr 2"
  "q_binomial 4 5 Other (2::int) = Inr 0"
  "q_binomial 5 (- 1) Other (2::int) = Inr 0"
  "q_binomial (1 / 2) 1 Other (2::int) = Inl (ValueError ''arguments (%s, %s) must be integers'' [1 / 2, 1])"
  "q_binomial (- 4) 1 Other (2::int) = Inl (ValueError ''n must be nonnegative'' [])"
  "q_binomial 6 1 Other \<i> = Inr (1 + \<i>)"
  by code_simp+

lemma docstring_q_jordan:
  "map (\<lambda>t. q_jordan t (2::int)) [[5], [4, 1], [3, 2], [3, 1, 1], [2, 2, 1], [2, 1, 1, 1], [1, 1, 1, 1, 1]]
     = map Inr [9765, 1029, 213, 93, 29, 9, 1]"
  "q_jordan [5] (3::int) = q_factorial 5 3"
  by code_simp+

section \<open>Arguments and selection of \<^verbatim>\<open>q_binomial\<close>\<close>

lemma in_ZZ_iff: "in_ZZ x \<longleftrightarrow> x \<in> \<int>"
  unfolding in_ZZ_def by (metis Ints_of_int floor_of_int Ints_cases)

lemma in_ZZ_of_int [simp]: "in_ZZ (of_int n)"
  by (simp add: in_ZZ_def)

lemma in_ZZ_simps [simp]: "in_ZZ 0" "in_ZZ 1" "in_ZZ (of_nat m)"
  "in_ZZ x \<Longrightarrow> in_ZZ y \<Longrightarrow> in_ZZ (x - y)"
  "in_ZZ x \<Longrightarrow> in_ZZ y \<Longrightarrow> in_ZZ (x + y)"
  by (simp_all add: in_ZZ_iff)

lemma floor_div_rat: "\<lfloor>(of_int n :: rat) / of_int d\<rfloor> = n div d"
  by (simp add: floor_divide_of_int_eq)

lemma cyclo_index_div:
  "cyclo_index n k = filter (\<lambda>d. n div d \<noteq> k div d + (n - k) div d) [2..n]"
  unfolding cyclo_index_def by (simp only: floor_div_rat)

lemma cyclo_index_zero: "cyclo_index n 0 = []"
  by (simp add: cyclo_index_div)

lemma naive_step_zero: "naive_step q n 0 = Some (1::'a::idom_divide)"
  by (simp add: naive_step_def naive_denominator_def naive_numerator_def)

lemma rat_quarter_le: "(of_int k :: rat) \<le> of_int n / 4 \<longleftrightarrow> 4 * k \<le> n"
proof -
  have "(of_int k :: rat) \<le> of_int n / 4 \<longleftrightarrow> (of_int (4 * k) :: rat) \<le> of_int n"
    by (simp add: field_simps)
  then show ?thesis by (simp only: of_int_le_iff)
qed

lemma real_quarter_le: "(of_int k :: real) \<le> of_int n / 4 \<longleftrightarrow> 4 * k \<le> n"
proof -
  have "(of_int k :: real) \<le> of_int n / 4 \<longleftrightarrow> (of_int (4 * k) :: real) \<le> of_int n"
    by (simp add: field_simps)
  then show ?thesis by (simp only: of_int_le_iff)
qed

section \<open>Evaluation is a homomorphism\<close>

lemma peval_padd: "peval (padd p q) x = peval p x + peval q (x::'a::comm_ring_1)"
  by (induction p q rule: padd.induct) (simp_all add: algebra_simps)

lemma peval_smult: "peval (smult c p) x = of_int c * peval p (x::'a::comm_ring_1)"
  by (induction p) (simp_all add: smult_def algebra_simps)

lemma peval_psub: "peval (psub p q) x = peval p x - peval q (x::'a::comm_ring_1)"
  by (simp add: psub_def peval_padd peval_smult)

lemma peval_pmul: "peval (pmul p q) x = peval p x * peval q (x::'a::comm_ring_1)"
  by (induction p) (simp_all add: peval_padd peval_smult algebra_simps)

lemma peval_strip: "peval (strip p) x = peval p (x::'a::comm_ring_1)"
proof (induction p)
  case Nil
  then show ?case by simp
next
  case (Cons a p)
  show ?case
  proof (cases "a = 0 \<and> strip p = []")
    case True
    with Cons have "peval p x = 0" by simp
    with True show ?thesis by simp
  next
    case False
    with Cons show ?thesis by auto
  qed
qed

lemma peval_pprod: "peval (pprod ps) x = prod_list (map (\<lambda>p. peval p (x::'a::comm_ring_1)) ps)"
  by (induction ps) (simp_all add: pprod_def peval_pmul)

lemma peval_replicate_zero: "peval (replicate m 0 @ p) x = x ^ m * peval p (x::'a::comm_ring_1)"
  by (induction m) (simp_all add: algebra_simps)

lemma peval_xn_minus_1: "0 < n \<Longrightarrow> peval (xn_minus_1 n) x = x ^ n - (1::'a::comm_ring_1)"
proof -
  assume "0 < n"
  then obtain m where n: "n = Suc m" by (cases n) simp_all
  show ?thesis by (simp add: xn_minus_1_def n peval_replicate_zero)
qed

section \<open>Normal forms\<close>

lemma strip_strip [simp]: "strip (strip p) = strip p"
  by (induction p) simp_all

lemma strip_Nil_iff: "strip p = [] \<longleftrightarrow> (\<forall>a \<in> set p. a = 0)"
  by (induction p) auto

lemma strip_Cons_normal: "strip (a # p) = a # p \<Longrightarrow> strip p = p"
  by (simp split: if_splits)

lemma strip_eq_self_iff: "strip p = p \<longleftrightarrow> (p = [] \<or> last p \<noteq> 0)"
proof (induction p)
  case Nil
  then show ?case by simp
next
  case (Cons a p)
  show ?case
  proof (cases "p = []")
    case True
    then show ?thesis by simp
  next
    case False
    with Cons show ?thesis by auto
  qed
qed

lemma length_strip_le: "length (strip p) \<le> length p"
  by (induction p) simp_all

text \<open>A polynomial that vanishes at every large integer has no nonzero coefficient.\<close>

lemma int_all_dvd_zero:
  assumes "\<And>x::int. N < x \<Longrightarrow> x dvd a"
  shows "a = 0"
proof (rule ccontr)
  assume "a \<noteq> 0"
  let ?x = "max N \<bar>a\<bar> + 1"
  have "?x dvd a" by (rule assms) simp
  moreover have "\<bar>a\<bar> < ?x" by simp
  moreover have "0 < ?x" by (smt (verit) abs_ge_zero)
  ultimately show False
    using \<open>a \<noteq> 0\<close> by (metis abs_of_pos dvd_imp_le_int not_less)
qed

lemma normal_eq_of_eval:
  assumes "strip p = p" and "strip q = q"
    and "\<And>x::int. N < x \<Longrightarrow> peval p x = peval q x"
  shows "p = q"
  using assms
proof (induction "length p + length q" arbitrary: p q N rule: less_induct)
  case less
  define a where "a = (case p of [] \<Rightarrow> 0 | c # _ \<Rightarrow> c)"
  define b where "b = (case q of [] \<Rightarrow> 0 | c # _ \<Rightarrow> c)"
  define p' where "p' = tl p"
  define q' where "q' = tl q"
  have ev_p: "peval p x = a + x * peval p' x" for x :: int
    by (cases p) (simp_all add: a_def p'_def)
  have ev_q: "peval q x = b + x * peval q' x" for x :: int
    by (cases q) (simp_all add: b_def q'_def)
  have "x dvd (a - b)" if "N < x" for x :: int
  proof -
    have "a - b = x * (peval q' x - peval p' x)"
      using less.prems(3)[OF that] by (simp add: ev_p ev_q algebra_simps)
    then show ?thesis by simp
  qed
  then have ab: "a = b" using int_all_dvd_zero[of N "a - b"] by simp
  have tails: "peval p' x = peval q' x" if "max N 0 < x" for x :: int
  proof -
    have "N < x" and "x \<noteq> 0" using that by simp_all
    with less.prems(3)[of x] show ?thesis by (simp add: ev_p ev_q ab)
  qed
  have np': "strip p' = p'" using less.prems(1) by (cases p) (simp_all add: p'_def split: if_splits)
  have nq': "strip q' = q'" using less.prems(2) by (cases q) (simp_all add: q'_def split: if_splits)
  show ?case
  proof (cases "p = [] \<and> q = []")
    case True
    then show ?thesis by simp
  next
    case False
    then have "length p' + length q' < length p + length q"
      by (cases p; cases q) (simp_all add: p'_def q'_def)
    from less.hyps[OF this np' nq', of "max N 0"] tails have t: "p' = q'" by blast
    show ?thesis
    proof (cases p)
      case Nil
      with False obtain c cs where q: "q = c # cs" by (cases q) auto
      with Nil t ab have "c = 0" "cs = []" by (simp_all add: a_def b_def p'_def q'_def)
      with less.prems(2) q show ?thesis by simp
    next
      case (Cons c cs)
      note p = this
      show ?thesis
      proof (cases q)
        case Nil
        with p t ab have "c = 0" "cs = []" by (simp_all add: a_def b_def p'_def q'_def)
        with less.prems(1) p show ?thesis by simp
      next
        case (Cons e es)
        with p t ab show ?thesis by (simp add: a_def b_def p'_def q'_def)
      qed
    qed
  qed
qed

section \<open>The ring of integer polynomials\<close>

typedef zpoly = "{p :: int list. strip p = p}"
  morphisms coeffs Zpoly
  by (rule exI[of _ "[]"]) simp

setup_lifting type_definition_zpoly

instantiation zpoly :: "{zero, one, plus, minus, uminus, times, divide}"
begin

lift_definition zero_zpoly :: zpoly is "[]"
  by simp

lift_definition one_zpoly :: zpoly is "[1]"
  by simp

lift_definition plus_zpoly :: "zpoly \<Rightarrow> zpoly \<Rightarrow> zpoly" is "\<lambda>p q. strip (padd p q)"
  by simp

lift_definition minus_zpoly :: "zpoly \<Rightarrow> zpoly \<Rightarrow> zpoly" is "\<lambda>p q. strip (psub p q)"
  by simp

lift_definition uminus_zpoly :: "zpoly \<Rightarrow> zpoly" is "\<lambda>p. strip (smult (- 1) p)"
  by simp

lift_definition times_zpoly :: "zpoly \<Rightarrow> zpoly \<Rightarrow> zpoly" is "\<lambda>p q. strip (pmul p q)"
  by simp

lift_definition divide_zpoly :: "zpoly \<Rightarrow> zpoly \<Rightarrow> zpoly" is "\<lambda>p q. pquot p q"
  by (simp add: pquot_def)

instance ..

end

lift_definition polygen :: zpoly is "[0, 1]"
  by simp

definition ev :: "zpoly \<Rightarrow> 'a::comm_ring_1 \<Rightarrow> 'a" where
  "ev p x = peval (coeffs p) x"

lemma ev_simps [simp]:
  "ev 0 x = 0"
  "ev 1 x = 1"
  "ev (p + q) x = ev p x + ev q x"
  "ev (p - q) x = ev p x - ev q x"
  "ev (- p) x = - ev p x"
  "ev (p * q) x = ev p x * ev q x"
  "ev polygen x = x"
  by (simp_all add: ev_def zero_zpoly.rep_eq one_zpoly.rep_eq plus_zpoly.rep_eq
      minus_zpoly.rep_eq uminus_zpoly.rep_eq times_zpoly.rep_eq polygen.rep_eq
      peval_strip peval_padd peval_psub peval_smult peval_pmul)

lemma zpoly_eqI:
  assumes "\<And>x::int. ev p x = ev q x"
  shows "p = q"
proof -
  have "coeffs p = coeffs q"
  proof (rule normal_eq_of_eval[of _ _ 0])
    show "strip (coeffs p) = coeffs p" using coeffs[of p] by simp
    show "strip (coeffs q) = coeffs q" using coeffs[of q] by simp
    show "peval (coeffs p) x = peval (coeffs q) x" for x :: int
      using assms[of x] by (simp add: ev_def)
  qed
  then show ?thesis by (simp add: coeffs_inject)
qed

lemma zpoly_eqI_large:
  assumes "\<And>x::int. N < x \<Longrightarrow> ev p x = ev q x"
  shows "p = q"
proof -
  have "coeffs p = coeffs q"
  proof (rule normal_eq_of_eval[of _ _ N])
    show "strip (coeffs p) = coeffs p" using coeffs[of p] by simp
    show "strip (coeffs q) = coeffs q" using coeffs[of q] by simp
    show "peval (coeffs p) x = peval (coeffs q) x" if "N < x" for x :: int
      using assms[OF that] by (simp add: ev_def)
  qed
  then show ?thesis by (simp add: coeffs_inject)
qed

instance zpoly :: comm_ring_1
proof
  fix a b c :: zpoly
  show "a * b * c = a * (b * c)" by (rule zpoly_eqI) (simp add: algebra_simps)
  show "a * b = b * a" by (rule zpoly_eqI) (simp add: algebra_simps)
  show "1 * a = a" by (rule zpoly_eqI) simp
  show "a + b + c = a + (b + c)" by (rule zpoly_eqI) (simp add: algebra_simps)
  show "a + b = b + a" by (rule zpoly_eqI) (simp add: algebra_simps)
  show "0 + a = a" by (rule zpoly_eqI) simp
  show "- a + a = 0" by (rule zpoly_eqI) simp
  show "a - b = a + - b" by (rule zpoly_eqI) simp
  show "(a + b) * c = a * c + b * c" by (rule zpoly_eqI) (simp add: algebra_simps)
  show "(0::zpoly) \<noteq> 1"
  proof
    assume "(0::zpoly) = 1"
    then have "ev 0 (0::int) = ev 1 (0::int)" by simp
    then show False by simp
  qed
qed

lemma ev_of_nat [simp]: "ev (of_nat n) x = of_nat n"
  by (induction n) simp_all

lemma ev_of_int [simp]: "ev (of_int c) x = of_int c"
  by (cases c) simp_all

lemma ev_power [simp]: "ev (p ^ n) x = ev p x ^ n"
  by (induction n) simp_all

lemma ev_prod_list: "ev (prod_list ps) x = prod_list (map (\<lambda>p. ev p x) ps)"
  by (induction ps) simp_all

lemma ev_prod: "ev (\<Prod>i\<in>A. f i) x = (\<Prod>i\<in>A. ev (f i) x)"
  by (induction A rule: infinite_finite_induct) simp_all

lemma ev_sum: "ev (\<Sum>i\<in>A. f i) x = (\<Sum>i\<in>A. ev (f i) x)"
  by (induction A rule: infinite_finite_induct) simp_all

instance zpoly :: ring_char_0
proof
  show "inj (of_nat :: nat \<Rightarrow> zpoly)"
  proof (rule injI)
    fix m n :: nat
    assume "(of_nat m :: zpoly) = of_nat n"
    then have "ev (of_nat m) (0::int) = ev (of_nat n) (0::int)" by simp
    then show "m = n" by simp
  qed
qed

section \<open>Lengths and leading coefficients\<close>

lemma length_padd: "length (padd p q) = max (length p) (length q)"
  by (induction p q rule: padd.induct) simp_all

lemma length_smult [simp]: "length (smult c p) = length p"
  by (simp add: smult_def)

lemma smult_Nil_iff [simp]: "smult c p = [] \<longleftrightarrow> p = []"
  by (simp add: smult_def)

lemma last_smult: "p \<noteq> [] \<Longrightarrow> last (smult c p) = c * last p"
  by (simp add: smult_def last_map)

lemma last_padd_less: "length p < length q \<Longrightarrow> last (padd p q) = last q"
proof (induction p q rule: padd.induct)
  case (3 a p b q)
  then show ?case by (cases "padd p q = []") (auto simp: length_padd dest!: arg_cong[of _ _ length])
qed simp_all

lemma last_padd_eq: "length p = length q \<Longrightarrow> p \<noteq> [] \<Longrightarrow> last (padd p q) = last p + last q"
proof (induction p q rule: padd.induct)
  case (3 a p b q)
  then show ?case by (cases "p = []") (auto dest!: arg_cong[of "padd _ _" _ length] simp: length_padd)
qed simp_all

lemma last_padd_greater: "length q < length p \<Longrightarrow> last (padd p q) = last p"
proof (induction p q rule: padd.induct)
  case (3 a p b q)
  then show ?case by (cases "padd p q = []") (auto simp: length_padd dest!: arg_cong[of _ _ length])
qed simp_all

lemma length_pmul: "p \<noteq> [] \<Longrightarrow> q \<noteq> [] \<Longrightarrow> length (pmul p q) = length p + length q - 1"
proof (induction p)
  case Nil
  then show ?case by simp
next
  case (Cons a p)
  show ?case
  proof (cases "p = []")
    case True
    with Cons.prems show ?thesis by (cases q) (simp_all add: length_padd)
  next
    case False
    with Cons show ?thesis by (simp add: length_padd)
  qed
qed

lemma last_pmul: "p \<noteq> [] \<Longrightarrow> q \<noteq> [] \<Longrightarrow> last (pmul p q) = last p * last q"
proof (induction p)
  case Nil
  then show ?case by simp
next
  case (Cons a p)
  show ?case
  proof (cases "p = []")
    case True
    show ?thesis
    proof (cases "length q = 1")
      case True
      then have "last (padd (smult a q) [0]) = last (smult a q) + last [0]"
        by (intro last_padd_eq) (use Cons.prems in auto)
      with \<open>p = []\<close> Cons.prems show ?thesis by (simp add: last_smult)
    next
      case False
      with Cons.prems have "length [0::int] < length (smult a q)" by (cases q) simp_all
      then have "last (padd (smult a q) [0]) = last (smult a q)" by (rule last_padd_greater)
      with \<open>p = []\<close> Cons.prems show ?thesis by (simp add: last_smult)
    qed
  next
    case False
    have "length (pmul p q) = length p + length q - 1"
      using False Cons.prems by (simp add: length_pmul)
    moreover have "0 < length p" using False by simp
    ultimately have "length (smult a q) < length (0 # pmul p q)" by simp
    then have "last (padd (smult a q) (0 # pmul p q)) = last (0 # pmul p q)"
      by (rule last_padd_less)
    moreover have "pmul p q \<noteq> []"
      using False Cons.prems length_pmul[of p q] by (cases p; cases q) auto
    ultimately show ?thesis using False Cons by simp
  qed
qed

definition len :: "zpoly \<Rightarrow> nat" where
  "len p = length (coeffs p)"

definition lead :: "zpoly \<Rightarrow> int" where
  "lead p = (if coeffs p = [] then 0 else last (coeffs p))"

lemma coeffs_normal: "strip (coeffs p) = coeffs p"
  using coeffs[of p] by simp

lemma coeffs_Nil_iff: "coeffs p = [] \<longleftrightarrow> p = 0"
  by (metis coeffs_inject zero_zpoly.rep_eq)

lemma len_zero_iff: "len p = 0 \<longleftrightarrow> p = 0"
  by (simp add: len_def coeffs_Nil_iff)

lemma len_pos_iff: "0 < len p \<longleftrightarrow> p \<noteq> 0"
  using len_zero_iff[of p] by auto

lemma lead_zero_iff: "lead p = 0 \<longleftrightarrow> p = 0"
  using coeffs_normal[of p] by (auto simp: lead_def coeffs_Nil_iff[symmetric] strip_eq_self_iff)

lemma coeffs_mult:
  assumes "a \<noteq> 0" and "b \<noteq> 0"
  shows "coeffs (a * b) = pmul (coeffs a) (coeffs b)"
proof -
  have na: "coeffs a \<noteq> []" and nb: "coeffs b \<noteq> []" using assms by (simp_all add: coeffs_Nil_iff)
  have "last (coeffs a) \<noteq> 0" "last (coeffs b) \<noteq> 0"
    using na nb coeffs_normal[of a] coeffs_normal[of b] by (simp_all add: strip_eq_self_iff)
  then have "last (pmul (coeffs a) (coeffs b)) \<noteq> 0" by (simp add: last_pmul na nb)
  then have "strip (pmul (coeffs a) (coeffs b)) = pmul (coeffs a) (coeffs b)"
    by (simp add: strip_eq_self_iff)
  then show ?thesis by (simp add: times_zpoly.rep_eq)
qed

lemma len_mult: "a \<noteq> 0 \<Longrightarrow> b \<noteq> 0 \<Longrightarrow> len (a * b) = len a + len b - 1"
  by (simp add: len_def coeffs_mult length_pmul coeffs_Nil_iff)

instance zpoly :: idom
proof
  fix a b :: zpoly
  assume "a \<noteq> 0" and "b \<noteq> 0"
  then have "len (a * b) = len a + len b - 1" by (rule len_mult)
  moreover have "0 < len a" "0 < len b"
    using \<open>a \<noteq> 0\<close> \<open>b \<noteq> 0\<close> by (simp_all add: len_pos_iff)
  ultimately have "0 < len (a * b)" by simp
  then show "a * b \<noteq> 0" by (simp add: len_pos_iff)
qed

lemma lead_mult: "lead (a * b) = lead a * lead b"
proof (cases "a = 0 \<or> b = 0")
  case True
  then show ?thesis by (auto simp: lead_zero_iff[THEN iffD2])
next
  case False
  then have "a \<noteq> 0" "b \<noteq> 0" by simp_all
  moreover from this have "a * b \<noteq> 0" by simp
  then have "coeffs (a * b) \<noteq> []" by (simp add: coeffs_Nil_iff)
  ultimately show ?thesis
    using coeffs_mult[of a b] last_pmul[of "coeffs a" "coeffs b"]
    by (simp add: lead_def coeffs_Nil_iff)
qed

section \<open>Division by a monic polynomial\<close>

lemma peval_butlast:
  "u \<noteq> [] \<Longrightarrow> last u = 0 \<Longrightarrow> peval (butlast u) x = peval u (x::'a::comm_ring_1)"
  by (induction u) (auto)

lemma length_psub: "length (psub p q) = max (length p) (length q)"
  by (simp add: psub_def length_padd)

lemma last_psub_eq:
  assumes "length p = length q" and "p \<noteq> []"
  shows "last (psub p q) = last p - last q"
proof -
  from assms have "q \<noteq> []" by auto
  with assms show ?thesis by (simp add: psub_def last_padd_eq last_smult)
qed

lemma pdivmod_monic:
  assumes "b \<noteq> []" and "last b = 1"
  shows "length (snd (pdivmod a b)) < length b
       \<and> peval a x = peval b x * peval (fst (pdivmod a b)) x + peval (snd (pdivmod a b)) (x::'a::comm_ring_1)"
proof (induction a)
  case Nil
  from assms(1) show ?case by simp
next
  case (Cons a0 a)
  obtain q r where qr: "pdivmod a b = (q, r)" by (cases "pdivmod a b")
  with Cons have len_r: "length r < length b"
    and ev_a: "peval a x = peval b x * peval q x + peval r x" by simp_all
  show ?case
  proof (cases "length (a0 # r) < length b")
    case True
    then show ?thesis by (simp add: qr ev_a algebra_simps)
  next
    case False
    with len_r have len_s: "length (a0 # r) = length b" by simp
    define c where "c = last (a0 # r) div last b"
    define u where "u = psub (a0 # r) (smult c b)"
    have c: "c = last (a0 # r)" by (simp add: c_def assms(2))
    have "length u = length b" using len_s by (simp add: u_def length_psub)
    then have "u \<noteq> []" using assms(1) by auto
    have "last u = last (a0 # r) - last (smult c b)"
      unfolding u_def by (rule last_psub_eq) (use len_s in simp_all)
    then have "last u = 0" by (simp add: last_smult assms c)
    have res: "pdivmod (a0 # a) b = (c # q, butlast u)"
      using False by (simp add: qr c_def u_def Let_def)
    have "peval (butlast u) x = peval u x"
      using \<open>u \<noteq> []\<close> \<open>last u = 0\<close> by (rule peval_butlast)
    then have "peval (butlast u) x = peval (a0 # r) x - of_int c * peval b x"
      by (simp add: u_def peval_psub peval_smult)
    moreover have "length (butlast u) < length b"
      using \<open>length u = length b\<close> assms(1) by (cases b) simp_all
    ultimately show ?thesis unfolding res by (simp add: ev_a algebra_simps)
  qed
qed

definition monic :: "zpoly \<Rightarrow> bool" where
  "monic p \<longleftrightarrow> lead p = 1"

lemma monic_nonzero: "monic p \<Longrightarrow> p \<noteq> 0"
  using lead_zero_iff[of p] by (auto simp: monic_def)

lemma monic_mult: "monic a \<Longrightarrow> monic b \<Longrightarrow> monic (a * b)"
  by (simp add: monic_def lead_mult)

lemma monic_one [simp]: "monic 1"
  by (simp add: monic_def lead_def one_zpoly.rep_eq)

lemma monic_prod: "(\<And>i. i \<in> A \<Longrightarrow> monic (f i)) \<Longrightarrow> monic (\<Prod>i\<in>A. f i)"
  by (induction A rule: infinite_finite_induct) (simp_all add: monic_mult)

lemma coeffs_Zpoly_strip: "coeffs (Zpoly (strip p)) = strip p"
  by (simp add: Zpoly_inverse)

lemma len_Zpoly_strip: "len (Zpoly (strip p)) \<le> length p"
  by (simp add: len_def coeffs_Zpoly_strip length_strip_le)

lemma ev_Zpoly_strip: "ev (Zpoly (strip p)) x = peval p x"
  by (simp add: ev_def coeffs_Zpoly_strip peval_strip)

lemma monic_division:
  assumes "monic b"
  shows "\<exists>r. a = b * (a div b) + r \<and> len r < len b"
proof -
  have nb: "coeffs b \<noteq> []" using monic_nonzero[OF assms] by (simp add: coeffs_Nil_iff)
  have lb: "last (coeffs b) = 1" using assms nb by (simp add: monic_def lead_def)
  define r where "r = Zpoly (strip (snd (pdivmod (coeffs a) (coeffs b))))"
  have "len r \<le> length (snd (pdivmod (coeffs a) (coeffs b)))"
    unfolding r_def by (rule len_Zpoly_strip)
  also have "\<dots> < length (coeffs b)"
    using pdivmod_monic[OF nb lb, of "coeffs a" "0::int"] by simp
  finally have "len r < len b" by (simp add: len_def)
  moreover have "a = b * (a div b) + r"
  proof (rule zpoly_eqI)
    fix x :: int
    have "ev (a div b) x = peval (fst (pdivmod (coeffs a) (coeffs b))) x"
      using nb by (simp add: ev_def divide_zpoly.rep_eq pquot_def coeffs_normal peval_strip)
    moreover have "ev r x = peval (snd (pdivmod (coeffs a) (coeffs b))) x"
      by (simp add: r_def ev_Zpoly_strip)
    moreover have "ev a x = ev b x * peval (fst (pdivmod (coeffs a) (coeffs b))) x
        + peval (snd (pdivmod (coeffs a) (coeffs b))) x"
      using pdivmod_monic[OF nb lb, of "coeffs a" x] by (simp add: ev_def)
    ultimately show "ev a x = ev (b * (a div b) + r) x"
      by simp
  qed
  ultimately show ?thesis by blast
qed

lemma len_mult_ge:
  assumes "a \<noteq> 0" and "b \<noteq> 0"
  shows "len a \<le> len (a * b)"
  using assms len_pos_iff[of b] by (simp add: len_mult)

lemma monic_multiple_small:
  assumes "monic b" and "b * k = r" and "len r < len b"
  shows "k = 0 \<and> r = 0"
proof (cases "k = 0")
  case True
  with assms(2) show ?thesis by simp
next
  case False
  have "len b \<le> len (b * k)"
    using len_mult_ge[OF monic_nonzero[OF assms(1)] False] .
  with assms(2,3) show ?thesis by simp
qed

lemma monic_dvd_div:
  assumes "monic b" and "b dvd a"
  shows "a = b * (a div b)"
proof -
  from monic_division[OF assms(1), of a] obtain r
    where r: "a = b * (a div b) + r" and lr: "len r < len b" by blast
  from assms(2) obtain k where k: "a = b * k" by (rule dvdE)
  have "b * (k - a div b) = r" using r k by (simp add: algebra_simps)
  from monic_multiple_small[OF assms(1) this lr] have "r = 0" by simp
  with r show ?thesis by simp
qed

lemma coeffs_of_int: "c \<noteq> 0 \<Longrightarrow> coeffs (of_int c) = [c]"
proof -
  assume "c \<noteq> 0"
  have "ev (Zpoly (strip [c])) x = peval [c] x" for x :: int
    by (rule ev_Zpoly_strip)
  then have "of_int c = Zpoly (strip [c])"
    by (intro zpoly_eqI) simp
  then have "coeffs (of_int c) = strip [c]"
    by (simp only: coeffs_Zpoly_strip)
  then show ?thesis using \<open>c \<noteq> 0\<close> by simp
qed

lemma len_of_int_mult:
  assumes "c \<noteq> 0"
  shows "len (of_int c * r) = len r"
proof (cases "r = 0")
  case True
  then show ?thesis by simp
next
  case False
  moreover have "(of_int c :: zpoly) \<noteq> 0" using assms by simp
  ultimately show ?thesis
    using len_pos_iff[of r] by (simp add: len_mult) (simp add: len_def coeffs_of_int assms)
qed

lemma monic_dvd_const_mult:
  assumes "monic m" and "c \<noteq> 0" and "m dvd of_int c * a"
  shows "m dvd a"
proof -
  from monic_division[OF assms(1), of a] obtain r
    where r: "a = m * (a div m) + r" and lr: "len r < len m" by blast
  from assms(3) obtain k where k: "of_int c * a = m * k" by (rule dvdE)
  have "m * (k - of_int c * (a div m)) = of_int c * r"
  proof -
    have "of_int c * a = of_int c * (m * (a div m)) + of_int c * r"
      using r by (metis distrib_left)
    with k show ?thesis by (simp add: algebra_simps)
  qed
  moreover have "len (of_int c * r) < len m" using lr by (simp add: len_of_int_mult assms(2))
  ultimately have "of_int c * r = 0" using monic_multiple_small[OF assms(1)] by blast
  then have "r = 0" using assms(2) by simp
  with r show ?thesis by (metis add.right_neutral dvd_triv_left)
qed

section \<open>The cyclotomic polynomials in the ring\<close>

lemma coeffs_eqI:
  assumes "strip l = l" and "\<And>x::int. ev p x = peval l x"
  shows "coeffs p = l"
proof -
  have "ev p x = ev (Zpoly (strip l)) x" for x :: int
    by (simp add: assms(2) ev_Zpoly_strip)
  then have "p = Zpoly (strip l)" by (rule zpoly_eqI)
  then have "coeffs p = strip l" by (simp only: coeffs_Zpoly_strip)
  then show ?thesis by (simp only: assms(1))
qed

definition Xn :: "nat \<Rightarrow> zpoly" where
  "Xn n = polygen ^ n - 1"

lemma ev_Xn [simp]: "ev (Xn n) x = x ^ n - 1"
  by (simp add: Xn_def)

lemma strip_xn_minus_1: "strip (xn_minus_1 n) = xn_minus_1 n"
  by (simp add: strip_eq_self_iff xn_minus_1_def)

lemma coeffs_Xn: "0 < n \<Longrightarrow> coeffs (Xn n) = xn_minus_1 n"
  by (rule coeffs_eqI) (simp_all add: strip_xn_minus_1 peval_xn_minus_1)

lemma monic_Xn: "0 < n \<Longrightarrow> monic (Xn n)"
  by (simp add: monic_def lead_def coeffs_Xn) (simp add: xn_minus_1_def)

lemma Xn_nonzero: "0 < n \<Longrightarrow> Xn n \<noteq> 0"
  by (rule monic_nonzero) (rule monic_Xn)

definition Phi :: "nat \<Rightarrow> zpoly" where
  "Phi n = Zpoly (cyclotomic_poly n)"

lemma strip_pquot: "strip (pquot p b) = pquot p b"
  by (simp add: pquot_def)

lemma strip_cyclotomic_poly: "strip (cyclotomic_poly n) = cyclotomic_poly n"
  by (subst (1 2) cyclotomic_poly.simps) (simp add: strip_pquot)

lemma coeffs_Phi: "coeffs (Phi n) = cyclotomic_poly n"
  unfolding Phi_def using strip_cyclotomic_poly[of n] by (simp add: Zpoly_inverse)

lemma ev_Phi: "ev (Phi n) x = cyclotomic_value n x"
  by (simp add: ev_def coeffs_Phi cyclotomic_value_def)

lemma pquot_strip_right: "pquot p (strip b) = pquot p b"
  by (simp add: pquot_def)

lemma Phi_rec:
  assumes "0 < n"
  shows "Phi n = Xn n div (\<Prod>d\<in>{d. d dvd n \<and> d < n}. Phi d)"
proof -
  let ?ds = "filter (\<lambda>d. d dvd n) [1..<n]"
  have set_ds: "set ?ds = {d. d dvd n \<and> d < n}"
    using assms by (auto intro: Nat.gr0I)
  have prod_eq: "(\<Prod>d\<in>{d. d dvd n \<and> d < n}. Phi d) = prod_list (map Phi ?ds)"
    unfolding set_ds[symmetric] by (rule prod.distinct_set_conv_list) simp
  have "coeffs (prod_list (map Phi ?ds)) = strip (pprod (map cyclotomic_poly ?ds))"
  proof (rule coeffs_eqI)
    fix x :: int
    have "map (\<lambda>p. ev p x) (map Phi ?ds) = map (\<lambda>p. peval p x) (map cyclotomic_poly ?ds)"
      by (simp add: ev_def coeffs_Phi)
    then show "ev (prod_list (map Phi ?ds)) x = peval (strip (pprod (map cyclotomic_poly ?ds))) x"
      by (simp only: ev_prod_list peval_strip peval_pprod)
  qed simp
  then have "coeffs (Xn n div prod_list (map Phi ?ds))
      = pquot (xn_minus_1 n) (pprod (map cyclotomic_poly ?ds))"
    using assms by (simp add: divide_zpoly.rep_eq coeffs_Xn pquot_strip_right)
  also have "\<dots> = cyclotomic_poly n"
    using assms by (subst cyclotomic_poly.simps) simp
  finally have "coeffs (Xn n div prod_list (map Phi ?ds)) = coeffs (Phi n)"
    by (simp add: coeffs_Phi)
  then show ?thesis by (simp add: coeffs_inject prod_eq)
qed

section \<open>Powers of the variable minus one\<close>

lemma Xn_dvd:
  assumes "d dvd n"
  shows "Xn d dvd Xn n"
proof -
  from assms obtain k where "n = d * k" by (rule dvdE)
  then have "Xn n = (polygen ^ d) ^ k - 1" by (simp add: Xn_def power_mult)
  also have "\<dots> = (polygen ^ d - 1) * (\<Sum>i<k. (polygen ^ d) ^ i)" by (rule power_diff_1_eq)
  finally show ?thesis by (simp add: Xn_def)
qed

lemma Xn_bezout: "\<exists>u v. u * Xn a + v * Xn b = Xn (gcd a b)"
proof (induction a b rule: gcd_nat_induct)
  case (base m)
  have "1 * Xn m + 0 * Xn 0 = Xn (gcd m 0)" by simp
  then show ?case by blast
next
  case (step m n)
  then obtain u v where uv: "u * Xn n + v * Xn (m mod n) = Xn (gcd n (m mod n))" by blast
  obtain w where w: "Xn (n * (m div n)) = Xn n * w"
  proof -
    have "Xn n dvd Xn (n * (m div n))" by (rule Xn_dvd) simp
    then show ?thesis using that by (rule dvdE)
  qed
  have "Xn m = polygen ^ (m mod n) * Xn (n * (m div n)) + Xn (m mod n)"
  proof (rule zpoly_eqI)
    fix x :: int
    have "x ^ m = x ^ (n * (m div n) + m mod n)" by simp
    then have "x ^ m = x ^ (n * (m div n)) * x ^ (m mod n)" by (simp only: power_add)
    then show "ev (Xn m) x = ev (polygen ^ (m mod n) * Xn (n * (m div n)) + Xn (m mod n)) x"
      by (simp add: algebra_simps)
  qed
  then have e: "Xn (m mod n) = Xn m - polygen ^ (m mod n) * w * Xn n"
    by (simp add: w algebra_simps)
  have "v * Xn m + (u - v * polygen ^ (m mod n) * w) * Xn n
      = u * Xn n + v * (Xn m - polygen ^ (m mod n) * w * Xn n)"
    by (simp add: algebra_simps)
  also have "\<dots> = Xn (gcd n (m mod n))"
    by (simp only: e[symmetric] uv)
  finally have "v * Xn m + (u - v * polygen ^ (m mod n) * w) * Xn n = Xn (gcd n (m mod n))" .
  moreover have "gcd n (m mod n) = gcd m n"
    by (metis gcd.commute gcd_red_nat)
  ultimately show ?case by metis
qed

lemma Xn_quotient:
  assumes "0 < g" and "e = g * k"
  obtains T W where "Xn e = Xn g * T" and "T = Xn g * W + of_nat k"
proof -
  define T :: zpoly where "T = (\<Sum>j<k. (polygen ^ g) ^ j)"
  have "Xn e = (polygen ^ g) ^ k - 1" by (simp add: Xn_def assms(2) power_mult)
  also have "\<dots> = (polygen ^ g - 1) * T" unfolding T_def by (rule power_diff_1_eq)
  finally have 1: "Xn e = Xn g * T" by (simp add: Xn_def)
  have "T - of_nat k = (\<Sum>j<k. Xn (g * j))"
    by (simp add: T_def Xn_def power_mult sum_subtractf)
  moreover have "Xn g dvd (\<Sum>j<k. Xn (g * j))"
    by (intro dvd_sum Xn_dvd) simp
  ultimately have "Xn g dvd T - of_nat k" by simp
  then obtain W where "T - of_nat k = Xn g * W" by (rule dvdE)
  then have "T = Xn g * W + of_nat k" by (simp add: algebra_simps)
  with 1 show ?thesis by (rule that)
qed

section \<open>Coprime up to a constant\<close>

definition cop :: "zpoly \<Rightarrow> zpoly \<Rightarrow> bool" where
  "cop a b \<longleftrightarrow> (\<exists>s t c. c \<noteq> 0 \<and> s * a + t * b = of_int c)"

lemma cop_sym: "cop a b \<Longrightarrow> cop b a"
  unfolding cop_def by (metis add.commute)

lemma cop_one: "cop a 1"
proof -
  have "(1::int) \<noteq> 0 \<and> 0 * a + 1 * 1 = (of_int 1 :: zpoly)" by simp
  then show ?thesis unfolding cop_def by blast
qed

lemma cop_mult:
  assumes "cop a b" and "cop a b'"
  shows "cop a (b * b')"
proof -
  from assms(1) obtain s t c where c: "c \<noteq> 0" "s * a + t * b = of_int c"
    unfolding cop_def by blast
  from assms(2) obtain s' t' c' where c': "c' \<noteq> 0" "s' * a + t' * b' = of_int c'"
    unfolding cop_def by blast
  have "of_int (c * c') = (s * a + t * b) * (s' * a + t' * b')"
    by (simp add: c c')
  also have "\<dots> = (s * s' * a + s * t' * b' + t * b * s') * a + (t * t') * (b * b')"
    by (simp add: algebra_simps)
  finally have "(s * s' * a + s * t' * b' + t * b * s') * a + (t * t') * (b * b') = of_int (c * c')"
    by simp
  moreover have "c * c' \<noteq> 0" using c(1) c'(1) by simp
  ultimately show ?thesis unfolding cop_def by blast
qed

lemma cop_prod:
  assumes "\<And>i. i \<in> S \<Longrightarrow> cop a (f i)"
  shows "cop a (\<Prod>i\<in>S. f i)"
  using assms by (induction S rule: infinite_finite_induct) (simp_all add: cop_one cop_mult)

lemma cop_mult_dvd:
  assumes "cop a b" and "monic a" and "monic b" and "a dvd m" and "b dvd m"
  shows "a * b dvd m"
proof -
  from assms(1) obtain s t c where c: "c \<noteq> 0" "s * a + t * b = of_int c"
    unfolding cop_def by blast
  from assms(4) obtain a' where a': "m = a * a'" by (rule dvdE)
  from assms(5) obtain b' where b': "m = b * b'" by (rule dvdE)
  have "of_int c * m = s * a * m + t * b * m"
    by (simp add: c(2)[symmetric] algebra_simps)
  also have "\<dots> = s * a * (b * b') + t * b * (a * a')"
    using a' b' by simp
  also have "\<dots> = (a * b) * (s * b' + t * a')"
    by (simp add: algebra_simps)
  finally have "a * b dvd of_int c * m" by simp
  then show ?thesis by (rule monic_dvd_const_mult[OF monic_mult[OF assms(2,3)] c(1)])
qed

lemma pairwise_cop_prod_dvd:
  assumes "finite S"
    and "\<And>i. i \<in> S \<Longrightarrow> monic (f i)"
    and "\<And>i. i \<in> S \<Longrightarrow> f i dvd m"
    and "\<And>i j. i \<in> S \<Longrightarrow> j \<in> S \<Longrightarrow> i \<noteq> j \<Longrightarrow> cop (f i) (f j)"
  shows "(\<Prod>i\<in>S. f i) dvd m"
  using assms
proof (induction S rule: finite_induct)
  case empty
  then show ?case by simp
next
  case (insert x S)
  have "(\<Prod>i\<in>S. f i) dvd m"
    by (rule insert.IH) (simp_all add: insert.prems)
  moreover have "cop (f x) (\<Prod>i\<in>S. f i)"
    by (rule cop_prod) (use insert.hyps insert.prems(3) in auto)
  moreover have "monic (\<Prod>i\<in>S. f i)"
    by (rule monic_prod) (simp add: insert.prems)
  ultimately have "f x * (\<Prod>i\<in>S. f i) dvd m"
    by (intro cop_mult_dvd) (simp_all add: insert.prems)
  then show ?case using insert.hyps by simp
qed

section \<open>The factorisation\<close>

lemma finite_divisors: "0 < n \<Longrightarrow> finite {c::nat. c dvd n}"
  by simp

lemma Phi_dvd_prod_divisors:
  assumes "0 < (d::nat)"
  shows "Phi d dvd (\<Prod>c\<in>{c. c dvd d}. Phi c)"
proof -
  have "finite {c. c dvd d}" using assms by simp
  moreover have "d \<in> {c. c dvd d}" by simp
  ultimately show ?thesis by (rule dvd_prodI)
qed

lemma Phi_cop:
  assumes IH: "\<And>m. 0 < m \<Longrightarrow> m < n \<Longrightarrow> (\<Prod>c\<in>{c. c dvd m}. Phi c) = Xn m"
    and "0 < d" and "d < e" and "e < n"
  shows "cop (Phi d) (Phi e)"
proof -
  define g where "g = gcd d e"
  have g: "0 < g" "g dvd d" "g dvd e" using assms(2) by (simp_all add: g_def)
  have "g \<le> d" using g(2) assms(2) by (rule dvd_imp_le)
  then have "g < e" "g < n" using assms(3,4) by simp_all
  have "0 < e" using assms(2,3) by simp
  from g(3) obtain k where k: "e = g * k" by (rule dvdE)
  with \<open>0 < e\<close> have "0 < k" by (cases k) simp_all
  obtain T W where T: "Xn e = Xn g * T" and W: "T = Xn g * W + of_nat k"
    using g(1) k by (rule Xn_quotient)
  have "Phi d dvd (\<Prod>c\<in>{c. c dvd d}. Phi c)"
    using assms(2) by (rule Phi_dvd_prod_divisors)
  moreover have "d < n" using assms(3,4) by simp
  ultimately have "Phi d dvd Xn d" using IH[OF assms(2)] by simp
  then obtain D' where D': "Xn d = Phi d * D'" by (rule dvdE)
  let ?A = "{c. c dvd e} - {e}"
  let ?B = "{c. c dvd g}"
  have "?B \<subseteq> ?A"
  proof
    fix c assume "c \<in> ?B"
    then have "c dvd g" by simp
    then have "c dvd e" using g(3) by (rule dvd_trans)
    moreover have "c \<le> g" using \<open>c dvd g\<close> \<open>0 < g\<close> by (rule dvd_imp_le)
    ultimately show "c \<in> ?A" using \<open>g < e\<close> by simp
  qed
  have finA: "finite ?A" using \<open>0 < e\<close> by simp
  define R where "R = (\<Prod>c\<in>?A - ?B. Phi c)"
  have "Xn e = (\<Prod>c\<in>{c. c dvd e}. Phi c)" using IH[OF \<open>0 < e\<close> assms(4)] by simp
  also have "\<dots> = Phi e * (\<Prod>c\<in>?A. Phi c)"
    by (rule prod.remove) (use \<open>0 < e\<close> in simp_all)
  also have "(\<Prod>c\<in>?A. Phi c) = R * (\<Prod>c\<in>?B. Phi c)"
    unfolding R_def using \<open>?B \<subseteq> ?A\<close> finA by (rule prod.subset_diff)
  also have "(\<Prod>c\<in>?B. Phi c) = Xn g" by (rule IH[OF \<open>0 < g\<close> \<open>g < n\<close>])
  finally have "Xn g * T = Xn g * (Phi e * R)" by (simp add: T algebra_simps)
  then have TR: "T = Phi e * R" using Xn_nonzero[OF \<open>0 < g\<close>] by simp
  from Xn_bezout[of d e] obtain u v where uv: "u * Xn d + v * Xn e = Xn g"
    unfolding g_def by blast
  have "(- u * W * D') * Phi d + ((1 - v * W * Xn g) * R) * Phi e
      = T - W * (u * Xn d + v * (Xn g * T))"
    by (simp add: D' TR algebra_simps)
  also have "\<dots> = T - W * Xn g" by (simp only: T[symmetric] uv)
  also have "\<dots> = of_nat k" by (subst (1) W) (simp add: algebra_simps)
  finally have "(- u * W * D') * Phi d + ((1 - v * W * Xn g) * R) * Phi e = of_int (int k)"
    by simp
  moreover have "int k \<noteq> 0" using \<open>0 < k\<close> by simp
  ultimately show ?thesis unfolding cop_def by blast
qed

lemma Phi_cop_neq:
  assumes IH: "\<And>m. 0 < m \<Longrightarrow> m < n \<Longrightarrow> (\<Prod>c\<in>{c. c dvd m}. Phi c) = Xn m"
    and "0 < d" and "d < n" and "0 < e" and "e < n" and "d \<noteq> e"
  shows "cop (Phi d) (Phi e)"
proof (cases "d < e")
  case True
  then show ?thesis using Phi_cop[of n d e] assms by blast
next
  case False
  with assms(6) have "e < d" by simp
  then have "cop (Phi e) (Phi d)" using Phi_cop[of n e d] assms by blast
  then show ?thesis by (rule cop_sym)
qed

lemma lead_Xn: "0 < n \<Longrightarrow> lead (Xn n) = 1"
  using monic_Xn[of n] by (simp add: monic_def)

lemma cyclotomic_factorisation_monic:
  "0 < n \<Longrightarrow> (\<Prod>d\<in>{d. d dvd n}. Phi d) = Xn n \<and> monic (Phi n)"
proof (induction n rule: less_induct)
  case (less n)
  note pos = \<open>0 < n\<close>
  have IH: "(\<Prod>c\<in>{c. c dvd m}. Phi c) = Xn m" if "0 < m" "m < n" for m
    using less.IH[OF that(2) that(1)] by simp
  have IHm: "monic (Phi m)" if "0 < m" "m < n" for m
    using less.IH[OF that(2) that(1)] by simp
  let ?S = "{d. d dvd n \<and> d < n}"
  define L where "L = (\<Prod>d\<in>?S. Phi d)"
  have finS: "finite ?S" by simp
  have posS: "0 < d" if "d \<in> ?S" for d using that pos by (auto intro: Nat.gr0I)
  have monS: "monic (Phi d)" if "d \<in> ?S" for d using that posS[OF that] IHm by simp
  have dvdS: "Phi d dvd Xn n" if "d \<in> ?S" for d
  proof -
    have "Phi d dvd (\<Prod>c\<in>{c. c dvd d}. Phi c)"
      using posS[OF that] by (rule Phi_dvd_prod_divisors)
    moreover have "d < n" using that by simp
    ultimately have "Phi d dvd Xn d" using IH[OF posS[OF that]] by simp
    moreover have "Xn d dvd Xn n" using that by (intro Xn_dvd) simp
    ultimately show ?thesis by (rule dvd_trans)
  qed
  have copS: "cop (Phi d) (Phi e)" if "d \<in> ?S" "e \<in> ?S" "d \<noteq> e" for d e
    using Phi_cop_neq[of n d e] IH posS[OF that(1)] posS[OF that(2)] that by simp
  have "L dvd Xn n" unfolding L_def
    using finS monS dvdS copS by (rule pairwise_cop_prod_dvd)
  moreover have monL: "monic L" unfolding L_def by (rule monic_prod) (rule monS)
  ultimately have "Xn n = L * (Xn n div L)" by (intro monic_dvd_div)
  then have fac: "Xn n = L * Phi n" using Phi_rec[OF pos] by (simp add: L_def)
  have "{d. d dvd n} = insert n ?S" using pos by (auto dest: dvd_imp_le)
  then have "(\<Prod>d\<in>{d. d dvd n}. Phi d) = Phi n * L"
    unfolding L_def by simp
  then have 1: "(\<Prod>d\<in>{d. d dvd n}. Phi d) = Xn n" using fac by (simp add: mult.commute)
  have "lead (Xn n) = lead L * lead (Phi n)" using fac by (simp add: lead_mult)
  then have "monic (Phi n)" using monL lead_Xn[OF pos] by (simp add: monic_def)
  with 1 show ?case by simp
qed

lemma Phi_factorisation: "0 < n \<Longrightarrow> (\<Prod>d\<in>{d. d dvd n}. Phi d) = Xn n"
  using cyclotomic_factorisation_monic[of n] by (rule conjunct1)

lemma monic_Phi: "0 < n \<Longrightarrow> monic (Phi n)"
  using cyclotomic_factorisation_monic[of n] by (rule conjunct2)

theorem cyclotomic_value_factorisation:
  fixes x :: "'a::comm_ring_1"
  assumes "0 < n"
  shows "(\<Prod>d\<in>{d. d dvd n}. cyclotomic_value d x) = x ^ n - 1"
proof -
  have "ev (\<Prod>d\<in>{d. d dvd n}. Phi d) x = ev (Xn n) x"
    using Phi_factorisation[OF assms] by simp
  then show ?thesis by (simp add: ev_prod ev_Phi)
qed

section \<open>Counting multiples\<close>

lemma div_Suc_dvd: "0 < d \<Longrightarrow> Suc b div d = b div d + (if d dvd Suc b then 1 else 0)"
  by (simp add: div_Suc dvd_eq_mod_eq_0)

lemma prod_power_indicator:
  fixes c :: "nat \<Rightarrow> 'a::comm_monoid_mult"
  assumes "finite A"
  shows "(\<Prod>d\<in>A. c d ^ (e d + (if P d then 1 else 0))) = (\<Prod>d\<in>A. c d ^ e d) * (\<Prod>d\<in>{d \<in> A. P d}. c d)"
proof -
  have "(\<Prod>d\<in>A. c d ^ (e d + (if P d then 1 else 0)))
      = (\<Prod>d\<in>A. c d ^ e d * (if P d then c d else 1))"
    by (intro prod.cong refl) (simp add: power_add)
  also have "\<dots> = (\<Prod>d\<in>A. c d ^ e d) * (\<Prod>d\<in>A. if P d then c d else 1)"
    by (rule prod.distrib)
  also have "(\<Prod>d\<in>A. if P d then c d else 1) = (\<Prod>d\<in>{d \<in> A. P d}. c d)"
    using assms by (simp add: prod.inter_filter)
  finally show ?thesis .
qed

lemma interval_product:
  fixes u c :: "nat \<Rightarrow> 'a::comm_monoid_mult"
  assumes u: "\<And>i. 0 < i \<Longrightarrow> i \<le> B \<Longrightarrow> u i = (\<Prod>d\<in>{d. d dvd i \<and> s \<le> d}. c d)"
    and "0 < s" and "a \<le> b" and "b \<le> B"
  shows "(\<Prod>i\<in>{a<..b}. u i) = (\<Prod>d\<in>{s..B}. c d ^ (b div d - a div d))"
  using assms(3,4)
proof (induction b)
  case 0
  then show ?case by simp
next
  case (Suc b)
  show ?case
  proof (cases "a = Suc b")
    case True
    then show ?thesis by simp
  next
    case False
    with Suc.prems have ab: "a \<le> b" and bB: "b \<le> B" by simp_all
    have IH: "(\<Prod>i\<in>{a<..b}. u i) = (\<Prod>d\<in>{s..B}. c d ^ (b div d - a div d))"
      using Suc.IH[OF ab bB] .
    have "{a<..Suc b} = insert (Suc b) {a<..b}" using ab by auto
    then have "(\<Prod>i\<in>{a<..Suc b}. u i) = u (Suc b) * (\<Prod>i\<in>{a<..b}. u i)" by simp
    also have "u (Suc b) = (\<Prod>d\<in>{d. d dvd Suc b \<and> s \<le> d}. c d)"
      using Suc.prems by (intro u) simp_all
    also have "{d. d dvd Suc b \<and> s \<le> d} = {d \<in> {s..B}. d dvd Suc b}"
      using Suc.prems by (auto dest: dvd_imp_le)
    finally have 1: "(\<Prod>i\<in>{a<..Suc b}. u i)
        = (\<Prod>d\<in>{s..B}. c d ^ (b div d - a div d)) * (\<Prod>d\<in>{d \<in> {s..B}. d dvd Suc b}. c d)"
      by (simp add: IH mult.commute)
    have "(\<Prod>d\<in>{s..B}. c d ^ (Suc b div d - a div d))
        = (\<Prod>d\<in>{s..B}. c d ^ ((b div d - a div d) + (if d dvd Suc b then 1 else 0)))"
    proof (intro prod.cong refl arg_cong[of _ _ "(^) (c _)"])
      fix d assume "d \<in> {s..B}"
      then have "0 < d" using assms(2) by simp
      have "a div d \<le> b div d" using ab by (rule div_le_mono)
      then show "Suc b div d - a div d = b div d - a div d + (if d dvd Suc b then 1 else 0)"
        by (simp add: div_Suc_dvd[OF \<open>0 < d\<close>])
    qed
    also have "\<dots> = (\<Prod>d\<in>{s..B}. c d ^ (b div d - a div d)) * (\<Prod>d\<in>{d \<in> {s..B}. d dvd Suc b}. c d)"
      by (rule prod_power_indicator) simp
    finally show ?thesis using 1 by simp
  qed
qed

lemma div_add_cases:
  fixes a b d :: nat
  assumes "0 < d"
  shows "(a + b) div d = a div d + b div d + (if (a + b) div d \<noteq> a div d + b div d then 1 else 0)"
proof -
  have "(a + b) div d = a div d + b div d + (a mod d + b mod d) div d"
    by (rule div_add1_eq)
  moreover have "a mod d + b mod d < 2 * d"
    using mod_less_divisor[OF assms, of a] mod_less_divisor[OF assms, of b] by linarith
  then have "(a mod d + b mod d) div d < 2"
    using assms by (simp add: less_mult_imp_div_less mult.commute)
  ultimately show ?thesis by auto
qed

text \<open>The core of the cyclotomic algorithm, for any factorisation over the divisors.\<close>

lemma product_formula_split:
  fixes u c :: "nat \<Rightarrow> 'a::comm_monoid_mult"
  assumes u: "\<And>i. 0 < i \<Longrightarrow> i \<le> n \<Longrightarrow> u i = (\<Prod>d\<in>{d. d dvd i \<and> s \<le> d}. c d)"
    and "0 < s" and "k \<le> n"
  shows "(\<Prod>i\<in>{n - k<..n}. u i)
       = (\<Prod>i\<in>{0<..k}. u i) * (\<Prod>d\<in>{d \<in> {s..n}. n div d \<noteq> k div d + (n - k) div d}. c d)"
proof -
  have "(\<Prod>i\<in>{n - k<..n}. u i) = (\<Prod>d\<in>{s..n}. c d ^ (n div d - (n - k) div d))"
    using u assms(2) by (rule interval_product) simp_all
  also have "\<dots> = (\<Prod>d\<in>{s..n}. c d ^ ((k div d - 0 div d)
        + (if n div d \<noteq> k div d + (n - k) div d then 1 else 0)))"
  proof (intro prod.cong refl arg_cong[of _ _ "(^) (c _)"])
    fix d assume "d \<in> {s..n}"
    then have "0 < d" using assms(2) by simp
    from div_add_cases[OF this, of k "n - k"] assms(3)
    show "n div d - (n - k) div d
        = k div d - 0 div d + (if n div d \<noteq> k div d + (n - k) div d then 1 else 0)"
      by (simp split: if_splits)
  qed
  also have "\<dots> = (\<Prod>d\<in>{s..n}. c d ^ (k div d - 0 div d))
      * (\<Prod>d\<in>{d \<in> {s..n}. n div d \<noteq> k div d + (n - k) div d}. c d)"
    by (rule prod_power_indicator) simp
  also have "(\<Prod>d\<in>{s..n}. c d ^ (k div d - 0 div d)) = (\<Prod>i\<in>{0<..k}. u i)"
    using u assms(2) by (rule interval_product[symmetric]) (simp_all add: assms(3))
  finally show ?thesis .
qed

section \<open>The product formula and the cyclotomic product\<close>

lemma nat_image_atLeastAtMost:
  assumes "0 < a"
  shows "nat ` {a..b} = {nat a..nat b}"
proof
  show "nat ` {a..b} \<subseteq> {nat a..nat b}" by auto
  show "{nat a..nat b} \<subseteq> nat ` {a..b}"
  proof
    fix j assume "j \<in> {nat a..nat b}"
    then have "nat a \<le> j" and "j \<le> nat b" by simp_all
    then have "a \<le> int j" and "int j \<le> b" using assms by linarith+
    then have "int j \<in> {a..b}" by simp
    then have "nat (int j) \<in> nat ` {a..b}" by (rule imageI)
    then show "j \<in> nat ` {a..b}" by simp
  qed
qed

lemma prod_list_upto_nat:
  fixes f :: "nat \<Rightarrow> 'a::comm_monoid_mult"
  assumes "0 < a"
  shows "prod_list (map (\<lambda>i. f (nat i)) [a..b]) = (\<Prod>j\<in>{nat a..nat b}. f j)"
proof -
  have "prod_list (map (\<lambda>i. f (nat i)) [a..b]) = (\<Prod>i\<in>set [a..b]. f (nat i))"
    by (rule prod.distinct_set_conv_list[symmetric]) simp
  also have "\<dots> = (\<Prod>i\<in>{a..b}. (f \<circ> nat) i)" by simp
  also have "\<dots> = (\<Prod>j\<in>nat ` {a..b}. f j)"
  proof (rule prod.reindex[symmetric])
    show "inj_on nat {a..b}" using assms by (auto simp: inj_on_def)
  qed
  finally show ?thesis by (simp only: nat_image_atLeastAtMost[OF assms])
qed

lemma naive_denominator_prod:
  assumes "0 \<le> k"
  shows "naive_denominator q k = (\<Prod>i\<in>{0<..nat k}. 1 - q ^ i)"
proof -
  have "naive_denominator q k = (\<Prod>j\<in>{nat 1..nat k}. 1 - q ^ j)"
    unfolding naive_denominator_def by (rule prod_list_upto_nat) simp
  moreover have "{nat 1..nat k} = {0<..nat k}" by auto
  ultimately show ?thesis by simp
qed

lemma naive_numerator_prod:
  assumes "0 \<le> k" and "k \<le> n"
  shows "naive_numerator q n k = (\<Prod>i\<in>{nat n - nat k<..nat n}. 1 - q ^ i)"
proof -
  have "naive_numerator q n k = (\<Prod>j\<in>{nat (n - k + 1)..nat n}. 1 - q ^ j)"
    unfolding naive_numerator_def by (rule prod_list_upto_nat) (use assms in simp)
  moreover have "{nat (n - k + 1)..nat n} = {nat n - nat k<..nat n}"
    using assms by auto
  ultimately show ?thesis by simp
qed

definition carries :: "nat \<Rightarrow> nat \<Rightarrow> nat set" where
  "carries n k = {d \<in> {2..n}. n div d \<noteq> k div d + (n - k) div d}"

lemma set_cyclo_index:
  assumes "0 \<le> k" and "k \<le> n"
  shows "nat ` set (cyclo_index n k) = carries (nat n) (nat k)"
proof -
  have eq: "(n div d \<noteq> k div d + (n - k) div d)
      \<longleftrightarrow> (nat n div nat d \<noteq> nat k div nat d + (nat n - nat k) div nat d)" if "2 \<le> d" for d
  proof -
    have "int (nat n div nat d) = n div d" "int (nat k div nat d) = k div d"
      "int ((nat n - nat k) div nat d) = (n - k) div d"
      using assms that by (simp_all add: zdiv_int)
    then show ?thesis by (metis int_plus of_nat_eq_iff)
  qed
  show ?thesis
  proof
    show "nat ` set (cyclo_index n k) \<subseteq> carries (nat n) (nat k)"
    proof
      fix j assume "j \<in> nat ` set (cyclo_index n k)"
      then obtain d where d: "d \<in> set (cyclo_index n k)" and j: "j = nat d" by blast
      from d have "2 \<le> d" "d \<le> n" "n div d \<noteq> k div d + (n - k) div d"
        by (simp_all add: cyclo_index_div)
      moreover from this have "2 \<le> nat d" "nat d \<le> nat n" by simp_all
      ultimately show "j \<in> carries (nat n) (nat k)"
        using eq[of d] by (simp add: carries_def j)
    qed
    show "carries (nat n) (nat k) \<subseteq> nat ` set (cyclo_index n k)"
    proof
      fix j assume j: "j \<in> carries (nat n) (nat k)"
      then have "2 \<le> int j" "int j \<le> n" by (auto simp: carries_def)
      moreover from j eq[of "int j"] have "n div int j \<noteq> k div int j + (n - k) div int j"
        by (auto simp: carries_def)
      ultimately have "int j \<in> set (cyclo_index n k)" by (simp add: cyclo_index_div)
      then have "nat (int j) \<in> nat ` set (cyclo_index n k)" by (rule imageI)
      then show "j \<in> nat ` set (cyclo_index n k)" by simp
    qed
  qed
qed

lemma cyclo_product_prod:
  assumes "0 \<le> k" and "k \<le> n"
  shows "cyclo_product n k x = (\<Prod>d\<in>carries (nat n) (nat k). cyclotomic_value d x)"
proof -
  have "distinct (cyclo_index n k)" by (simp add: cyclo_index_div)
  then have "cyclo_product n k x = (\<Prod>i\<in>set (cyclo_index n k). cyclotomic_value (nat i) x)"
    unfolding cyclo_product_def by (rule prod.distinct_set_conv_list[symmetric])
  also have "\<dots> = (\<Prod>i\<in>set (cyclo_index n k). ((\<lambda>d. cyclotomic_value d x) \<circ> nat) i)" by simp
  also have "\<dots> = (\<Prod>d\<in>nat ` set (cyclo_index n k). cyclotomic_value d x)"
  proof (rule prod.reindex[symmetric])
    show "inj_on nat (set (cyclo_index n k))" by (auto simp: inj_on_def cyclo_index_div)
  qed
  finally show ?thesis by (simp only: set_cyclo_index[OF assms])
qed

text \<open>The factors \<open>1 - q^i\<close> in cyclotomic values: the sign goes to the first one.\<close>

lemma one_minus_power_factorisation:
  fixes q :: "'a::comm_ring_1"
  assumes "0 < i"
  shows "1 - q ^ i = (\<Prod>d\<in>{d. d dvd i \<and> 1 \<le> d}. if d = 1 then 1 - q else cyclotomic_value d q)"
proof -
  let ?c = "\<lambda>d. if d = 1 then 1 - q else cyclotomic_value d q"
  have one: "cyclotomic_value (Suc 0) q = q - 1"
    using cyclotomic_value_factorisation[of 1 q] by simp
  have set_eq: "{d. d dvd i \<and> 1 \<le> d} = {d. d dvd i}"
    using assms by (auto intro!: Nat.gr0I simp: Suc_le_eq)
  have fin: "finite {d. d dvd i}" using assms by simp
  have "(\<Prod>d\<in>{d. d dvd i}. ?c d) = ?c 1 * (\<Prod>d\<in>{d. d dvd i} - {1}. ?c d)"
    using fin by (rule prod.remove) simp
  also have "(\<Prod>d\<in>{d. d dvd i} - {1}. ?c d) = (\<Prod>d\<in>{d. d dvd i} - {1}. cyclotomic_value d q)"
    by (rule prod.cong) simp_all
  finally have "(\<Prod>d\<in>{d. d dvd i}. ?c d) = - (cyclotomic_value 1 q * (\<Prod>d\<in>{d. d dvd i} - {1}. cyclotomic_value d q))"
    by (simp add: one algebra_simps)
  also have "cyclotomic_value 1 q * (\<Prod>d\<in>{d. d dvd i} - {1}. cyclotomic_value d q)
      = (\<Prod>d\<in>{d. d dvd i}. cyclotomic_value d q)"
    using fin by (rule prod.remove[symmetric]) simp
  also have "\<dots> = q ^ i - 1" using assms by (rule cyclotomic_value_factorisation)
  finally have "(\<Prod>d\<in>{d. d dvd i}. ?c d) = 1 - q ^ i" by simp
  then show ?thesis by (simp only: set_eq)
qed

lemma carries_not_one: "d \<in> carries n k \<Longrightarrow> d \<noteq> 1"
  by (simp add: carries_def)

theorem naive_numerator_factorisation:
  fixes q :: "'a::{comm_ring_1,divide}"
  assumes "0 \<le> k" and "k \<le> n"
  shows "naive_numerator q n k = naive_denominator q k * cyclo_product n k q"
proof -
  let ?c = "\<lambda>d. if d = 1 then 1 - q else cyclotomic_value d q"
  have "(\<Prod>i\<in>{nat n - nat k<..nat n}. 1 - q ^ i)
      = (\<Prod>i\<in>{0<..nat k}. 1 - q ^ i)
        * (\<Prod>d\<in>{d \<in> {1..nat n}. nat n div d \<noteq> nat k div d + (nat n - nat k) div d}. ?c d)"
  proof (rule product_formula_split)
    show "1 - q ^ i = (\<Prod>d\<in>{d. d dvd i \<and> 1 \<le> d}. ?c d)" if "0 < i" for i
      using that by (rule one_minus_power_factorisation)
    show "nat k \<le> nat n" using assms by simp
  qed simp
  also have "{d \<in> {1..nat n}. nat n div d \<noteq> nat k div d + (nat n - nat k) div d}
      = carries (nat n) (nat k)"
  proof -
    have kn: "nat k \<le> nat n" using assms by simp
    have "2 \<le> d" if "1 \<le> d" and "nat n div d \<noteq> nat k div d + (nat n - nat k) div d" for d
    proof (rule ccontr)
      assume "\<not> 2 \<le> d"
      with that(1) have "d = 1" by simp
      with that(2) kn show False by simp
    qed
    then show ?thesis unfolding carries_def by auto
  qed
  also have "(\<Prod>d\<in>carries (nat n) (nat k). ?c d) = (\<Prod>d\<in>carries (nat n) (nat k). cyclotomic_value d q)"
    by (rule prod.cong) (auto dest: carries_not_one)
  finally show ?thesis
    by (simp only: naive_numerator_prod[OF assms] naive_denominator_prod[OF assms(1)]
        cyclo_product_prod[OF assms])
qed

section \<open>Every algorithm returns a cyclotomic product\<close>

lemma naive_step_cyclo:
  fixes q :: "'a::idom_divide"
  assumes "0 \<le> k" and "k \<le> n"
  shows "naive_step q n k = (if naive_denominator q k = 0 then None else Some (cyclo_product n k q))"
proof (cases "naive_denominator q k = 0")
  case True
  then show ?thesis by (simp add: naive_step_def)
next
  case False
  then have "naive_numerator q n k div naive_denominator q k = cyclo_product n k q"
    by (simp add: naive_numerator_factorisation[OF assms])
  with False show ?thesis by (simp add: naive_step_def)
qed

lemma q_binomial_in_range:
  assumes "0 \<le> k" and "k \<le> n"
  shows "q_binomial (of_int n) (of_int k) kind q =
     (case choose_algo n (min (n - k) k) kind of
        naive \<Rightarrow>
          (case naive_step q n (min (n - k) k) of
             Some v \<Rightarrow> Inr v
           | None \<Rightarrow> Inr (cyclo_product n (min (n - k) k) q))
      | cyclo_generic \<Rightarrow> Inr (cyclo_product n (min (n - k) k) q)
      | cyclo_polynomial g \<Rightarrow> Inr (cyclo_product n (min (n - k) k) g))"
  using assms by (simp add: q_binomial_def Let_def)

lemma q_binomial_cyclo:
  fixes q :: "'a::idom_divide"
  assumes "0 \<le> k" and "k \<le> n"
  shows "q_binomial (of_int n) (of_int k) kind q =
     Inr (case choose_algo n (min (n - k) k) kind of
            cyclo_polynomial g \<Rightarrow> cyclo_product n (min (n - k) k) g
          | _ \<Rightarrow> cyclo_product n (min (n - k) k) q)"
proof -
  have "0 \<le> min (n - k) k" "min (n - k) k \<le> n" using assms by simp_all
  note ns = naive_step_cyclo[OF this, of q]
  show ?thesis
    unfolding q_binomial_in_range[OF assms] ns
    by (simp split: algo.splits)
qed

section \<open>The value at one\<close>

lemma Phi_one: "Phi 1 = polygen - 1"
  using Phi_factorisation[of 1] by (simp add: Xn_def)

lemma Phi_reduced:
  assumes "0 < i"
  shows "(\<Prod>d\<in>{d. d dvd i \<and> 2 \<le> d}. Phi d) = (\<Sum>j<i. polygen ^ j)"
proof -
  have fin: "finite {d. d dvd i}" using assms by simp
  have set_eq: "{d. d dvd i} - {1} = {d. d dvd i \<and> 2 \<le> d}"
    using assms by (auto intro!: Nat.gr0I simp: Suc_le_eq) 
  have "Phi 1 * (\<Prod>d\<in>{d. d dvd i} - {1}. Phi d) = (\<Prod>d\<in>{d. d dvd i}. Phi d)"
    using fin by (rule prod.remove[symmetric]) simp
  also have "\<dots> = polygen ^ i - 1"
    using Phi_factorisation[OF assms] by (simp add: Xn_def)
  also have "\<dots> = (polygen - 1) * (\<Sum>j<i. polygen ^ j)" by (rule power_diff_1_eq)
  finally have "Phi 1 * (\<Prod>d\<in>{d. d dvd i} - {1}. Phi d) = Phi 1 * (\<Sum>j<i. polygen ^ j)"
    by (simp only: Phi_one)
  moreover have "monic (Phi 1)" by (rule monic_Phi) simp
  then have "Phi 1 \<noteq> 0" by (rule monic_nonzero)
  ultimately have "(\<Prod>d\<in>{d. d dvd i} - {1}. Phi d) = (\<Sum>j<i. polygen ^ j)" by simp
  then show ?thesis by (simp only: set_eq)
qed

theorem cyclotomic_value_reduced:
  fixes x :: "'a::comm_ring_1"
  assumes "0 < i"
  shows "(\<Prod>d\<in>{d. d dvd i \<and> 2 \<le> d}. cyclotomic_value d x) = (\<Sum>j<i. x ^ j)"
proof -
  have "ev (\<Prod>d\<in>{d. d dvd i \<and> 2 \<le> d}. Phi d) x = ev (\<Sum>j<i. polygen ^ j) x"
    by (simp only: Phi_reduced[OF assms])
  then show ?thesis by (simp add: ev_prod ev_sum ev_Phi)
qed

lemma fact_interval: "(\<Prod>i\<in>{0<..m}. int i) = fact m"
proof (induction m)
  case 0
  then show ?case by simp
next
  case (Suc m)
  have "{0<..Suc m} = insert (Suc m) {0<..m}" by auto
  then show ?case using Suc by (simp add: algebra_simps)
qed

lemma fact_split_interval:
  assumes "a \<le> b"
  shows "(\<Prod>i\<in>{0<..a}. int i) * (\<Prod>i\<in>{a<..b}. int i) = (\<Prod>i\<in>{0<..b}. int i)"
proof -
  have "{0<..b} = {0<..a} \<union> {a<..b}" using assms by auto
  moreover have "{0<..a} \<inter> {a<..b} = {}" by auto
  ultimately show ?thesis by (simp add: prod.union_disjoint)
qed

lemma cyclo_product_one_int:
  assumes "k \<le> n"
  shows "(\<Prod>d\<in>carries n k. cyclotomic_value d (1::int)) = int (n choose k)"
proof -
  let ?c = "\<lambda>d. cyclotomic_value d (1::int)"
  have "(\<Prod>i\<in>{n - k<..n}. int i)
      = (\<Prod>i\<in>{0<..k}. int i) * (\<Prod>d\<in>{d \<in> {2..n}. n div d \<noteq> k div d + (n - k) div d}. ?c d)"
  proof (rule product_formula_split)
    show "int i = (\<Prod>d\<in>{d. d dvd i \<and> 2 \<le> d}. ?c d)" if "0 < i" for i
      using cyclotomic_value_reduced[OF that, of "1::int"] by simp
  qed (use assms in simp_all)
  then have "(\<Prod>i\<in>{n - k<..n}. int i) = fact k * (\<Prod>d\<in>carries n k. ?c d)"
    by (simp only: fact_interval carries_def)
  moreover have "fact (n - k) * (\<Prod>i\<in>{n - k<..n}. int i) = fact n"
    using fact_split_interval[of "n - k" n] by (simp add: fact_interval)
  moreover have "(fact k :: int) * fact (n - k) * int (n choose k) = fact n"
    using binomial_fact_lemma[OF assms] by (metis of_nat_fact of_nat_mult)
  ultimately have "(fact k * fact (n - k) :: int) * (\<Prod>d\<in>carries n k. ?c d)
      = (fact k * fact (n - k)) * int (n choose k)"
    by (simp add: algebra_simps)
  moreover have "(fact k * fact (n - k) :: int) \<noteq> 0" by simp
  ultimately show ?thesis by (simp only: mult_cancel_left) simp
qed

lemma peval_of_int: "peval p (of_int x :: 'a::comm_ring_1) = of_int (peval p x)"
  by (induction p) simp_all

lemma cyclotomic_value_of_int:
  "cyclotomic_value d (of_int x :: 'a::comm_ring_1) = of_int (cyclotomic_value d x)"
  by (simp add: cyclotomic_value_def peval_of_int)

lemma cyclo_product_one:
  assumes "0 \<le> k" and "k \<le> n"
  shows "cyclo_product n k (1::'a::comm_ring_1) = of_nat (nat n choose nat k)"
proof -
  have "cyclo_product n k (1::'a) = (\<Prod>d\<in>carries (nat n) (nat k). cyclotomic_value d (of_int 1 :: 'a))"
    by (simp add: cyclo_product_prod[OF assms])
  also have "\<dots> = of_int (\<Prod>d\<in>carries (nat n) (nat k). cyclotomic_value d (1::int))"
    by (simp only: cyclotomic_value_of_int of_int_prod)
  also have "(\<Prod>d\<in>carries (nat n) (nat k). cyclotomic_value d (1::int)) = int (nat n choose nat k)"
    by (rule cyclo_product_one_int) (use assms in simp)
  finally show ?thesis by simp
qed

section \<open>Exact division of integer polynomials\<close>

section \<open>Exact division in the ring\<close>

lemma length_pdivmod:
  assumes "b \<noteq> []"
  shows "length (snd (pdivmod a b)) = min (length a) (length b - 1)"
proof (induction a)
  case Nil
  then show ?case by simp
next
  case (Cons a0 a)
  obtain q r where qr: "pdivmod a b = (q, r)" by (cases "pdivmod a b")
  with Cons have lr: "length r = min (length a) (length b - 1)" by simp
  have lb: "0 < length b" using assms by simp
  show ?case
  proof (cases "length (a0 # r) < length b")
    case True
    then have "pdivmod (a0 # a) b = (0 # q, a0 # r)" by (simp add: qr)
    moreover from True lr have "length (a0 # r) = min (length (a0 # a)) (length b - 1)"
      by (simp; arith)
    ultimately show ?thesis by simp
  next
    case False
    define c where "c = last (a0 # r) div last b"
    from False have res: "pdivmod (a0 # a) b = (c # q, butlast (psub (a0 # r) (smult c b)))"
      by (simp add: qr c_def Let_def)
    from False lr lb have "Suc (length r) = length b" by (simp; arith)
    then have "length (a0 # r) = length b" by simp
    then have "length (psub (a0 # r) (smult c b)) = length b" by (simp add: length_psub)
    then have "length (butlast (psub (a0 # r) (smult c b))) = length b - 1" by simp
    moreover from False lr lb have "min (length (a0 # a)) (length b - 1) = length b - 1"
      by (simp; arith)
    ultimately show ?thesis unfolding res by simp
  qed
qed

lemma strip_eq_iff_eval:
  "strip p = strip q \<longleftrightarrow> (\<forall>x::int. peval p x = peval q x)"
proof
  assume "strip p = strip q"
  then have "peval (strip p) x = peval (strip q) x" for x :: int by simp
  then show "\<forall>x::int. peval p x = peval q x" by (simp add: peval_strip)
next
  assume "\<forall>x::int. peval p x = peval q x"
  then have e: "peval (strip p) x = peval (strip q) x" for x :: int by (simp add: peval_strip)
  show "strip p = strip q"
    by (rule normal_eq_of_eval[of _ _ 0]) (simp_all add: e)
qed

lemma strip_Nil_of_eval:
  assumes "\<And>x::int. peval p x = 0"
  shows "strip p = []"
  using strip_eq_iff_eval[of p "[]"] assms by simp

lemma eval_eq_of_large:
  assumes "\<And>x::int. N < x \<Longrightarrow> peval p x = peval q x"
  shows "peval p x = peval q (x::int)"
proof -
  have "strip p = strip q"
    by (rule normal_eq_of_eval[of _ _ N]) (simp_all add: peval_strip assms)
  then show ?thesis by (simp add: strip_eq_iff_eval)
qed

lemma strip_eq_same_length:
  "length p = length q \<Longrightarrow> strip p = strip q \<Longrightarrow> p = q"
proof (induction p arbitrary: q)
  case Nil
  then show ?case by simp
next
  case (Cons a p)
  then obtain b q' where q: "q = b # q'" by (cases q) auto
  with Cons.prems have "length p = length q'" by simp
  moreover from Cons.prems(2) have "a = b \<and> strip p = strip q'"
    unfolding q by (auto split: if_splits)
  ultimately show ?case using Cons.IH[of q'] q by simp
qed

lemma len_diff_le: "len (p - q) \<le> max (len p) (len q)"
proof -
  have "len (p - q) \<le> length (psub (coeffs p) (coeffs q))"
    by (simp add: len_def minus_zpoly.rep_eq length_strip_le)
  then show ?thesis by (simp add: len_def length_psub)
qed

lemma nonzero_multiple_small:
  assumes "b \<noteq> 0" and "b * k = r" and "len r < len b"
  shows "k = 0"
proof (rule ccontr)
  assume "k \<noteq> 0"
  then have "len b \<le> len (b * k)" using assms(1) by (intro len_mult_ge)
  with assms(2,3) show False by simp
qed

lemma quotient_zero_of_short:
  assumes "b \<noteq> []" and "last b \<noteq> 0"
    and "length a < length b" and "length r < length b"
    and ev: "\<And>x::int. peval a x = peval b x * peval k x + peval r x"
  shows "peval k (x::int) = 0"
proof -
  have nb: "strip b = b" using assms(1,2) by (simp add: strip_eq_self_iff)
  define B where "B = Zpoly (strip b)"
  define K where "K = Zpoly (strip k)"
  define D where "D = Zpoly (strip a) - Zpoly (strip r)"
  have cB: "coeffs B = b" by (simp add: B_def nb Zpoly_inverse)
  have "len B = length b" by (simp add: len_def cB)
  have "B \<noteq> 0"
    using assms(1) by (simp add: coeffs_Nil_iff[symmetric] cB)
  have "len D \<le> max (len (Zpoly (strip a))) (len (Zpoly (strip r)))"
    unfolding D_def by (rule len_diff_le)
  also have "\<dots> \<le> max (length a) (length r)"
    using len_Zpoly_strip[of a] len_Zpoly_strip[of r] by linarith
  also have "\<dots> < len B" using assms(3,4) by (simp add: \<open>len B = length b\<close>)
  finally have "len D < len B" .
  moreover have "B * K = D"
    by (rule zpoly_eqI) (simp add: B_def K_def D_def ev_Zpoly_strip ev)
  ultimately have "K = 0" using \<open>B \<noteq> 0\<close> nonzero_multiple_small[of B K D] by simp
  then have "ev K x = 0" by simp
  then show ?thesis by (simp add: K_def ev_Zpoly_strip)
qed

definition hd0 :: "int list \<Rightarrow> int" where
  "hd0 p = (case p of [] \<Rightarrow> 0 | a # _ \<Rightarrow> a)"

lemma peval_hd0_tl: "peval p x = of_int (hd0 p) + x * peval (tl p) (x::'a::comm_ring_1)"
  by (cases p) (simp_all add: hd0_def)

lemma last_tl: "tl b \<noteq> [] \<Longrightarrow> last (tl b) = last b"
  by (cases b) simp_all

lemma pdivmod_exact:
  assumes nb: "b \<noteq> []" and lb: "last b \<noteq> 0"
  shows "length r < length b \<Longrightarrow> (\<And>x::int. peval a x = peval b x * peval k x + peval r x)
    \<Longrightarrow> strip (fst (pdivmod a b)) = strip k \<and> strip (snd (pdivmod a b)) = strip r"
proof (induction a arbitrary: k r)
  case Nil
  have k0: "peval k x = 0" for x :: int
    by (rule quotient_zero_of_short[OF nb lb _ Nil.prems(1), of "[]"])
       (use nb Nil.prems(2) in simp_all)
  then have "peval r x = 0" for x :: int using Nil.prems(2)[of x] by simp
  then have "strip r = []" by (rule strip_Nil_of_eval)
  moreover have "strip k = []" using k0 by (rule strip_Nil_of_eval)
  ultimately show ?case by simp
next
  case (Cons a0 a)
  define k0 where "k0 = hd0 k"
  define r0 where "r0 = hd0 r"
  define b0 where "b0 = hd0 b"
  define r' where "r' = padd (smult k0 (tl b)) (tl r)"
  have ev_k: "peval k x = k0 + x * peval (tl k) x" for x :: int
    using peval_hd0_tl[of k x] by (simp add: k0_def)
  have ev_r: "peval r x = r0 + x * peval (tl r) x" for x :: int
    using peval_hd0_tl[of r x] by (simp add: r0_def)
  have ev_b: "peval b x = b0 + x * peval (tl b) x" for x :: int
    using peval_hd0_tl[of b x] by (simp add: b0_def)
  have ev_r': "peval r' x = k0 * peval (tl b) x + peval (tl r) x" for x :: int
    by (simp add: r'_def peval_padd peval_smult)
  have a0: "a0 = b0 * k0 + r0"
    using Cons.prems(2)[of 0] by (simp add: ev_k ev_r ev_b)
  have len_r': "length r' = length b - 1"
    using Cons.prems(1) by (simp add: r'_def length_padd max_def)
  have tail: "peval a x = peval b x * peval (tl k) x + peval r' x" for x :: int
  proof -
    have "peval a y = peval (padd (pmul b (tl k)) r') y" if "0 < y" for y :: int
    proof -
      have "y * peval a y = y * (peval b y * peval (tl k) y + peval r' y)"
        using Cons.prems(2)[of y] unfolding ev_r' ev_k ev_r a0
        by (simp add: ev_b algebra_simps)
      with that show ?thesis by (simp add: peval_padd peval_pmul)
    qed
    then have "peval a x = peval (padd (pmul b (tl k)) r') x" by (rule eval_eq_of_large)
    then show ?thesis by (simp add: peval_padd peval_pmul)
  qed
  obtain q1 r1 where qr: "pdivmod a b = (q1, r1)" by (cases "pdivmod a b")
  have "length r' < length b" using nb by (simp add: len_r')
  from Cons.IH[OF this tail] have IH: "strip q1 = strip (tl k)" "strip r1 = strip r'"
    by (simp_all add: qr)
  have len_r1: "length r1 = min (length a) (length b - 1)"
    using length_pdivmod[OF nb, of a] by (simp add: qr)
  have ev_q1: "peval q1 x = peval (tl k) x" for x :: int
    using IH(1) by (simp add: strip_eq_iff_eval)
  have ev_r1: "peval r1 x = peval r' x" for x :: int
    using IH(2) by (simp add: strip_eq_iff_eval)
  show ?case
  proof (cases "length (a0 # r1) < length b")
    case True
    then have res: "pdivmod (a0 # a) b = (0 # q1, a0 # r1)" by (simp add: qr)
    from True len_r1 have "length (a0 # a) < length b" by (simp; arith)
    then have kz: "peval k x = 0" for x :: int
      by (rule quotient_zero_of_short[OF nb lb _ Cons.prems(1)]) (rule Cons.prems(2))
    have "k0 = 0" using kz[of 0] by (simp add: ev_k)
    have "peval (0 # q1) x = peval k x" for x :: int
      using kz[of x] by (simp add: ev_q1 ev_k \<open>k0 = 0\<close>)
    moreover have "peval (a0 # r1) x = peval r x" for x :: int
      by (simp add: ev_r1 ev_r' ev_r a0 \<open>k0 = 0\<close>)
    ultimately show ?thesis unfolding res by (simp only: fst_conv snd_conv strip_eq_iff_eval) simp
  next
    case False
    with len_r1 nb have len_eq: "length r1 = length b - 1" by (simp; arith)
    have "r1 = r'"
      by (rule strip_eq_same_length) (simp_all add: len_eq len_r' IH(2))
    define c where "c = last (a0 # r1) div last b"
    have "last (a0 # r') = k0 * last b"
    proof (cases "tl b = []")
      case True
      then have "length b = 1" using nb by (cases b) simp_all
      with Cons.prems(1) have "r = []" by simp
      then have "r0 = 0" by (simp add: r0_def hd0_def)
      moreover have "b0 = last b" using True nb by (cases b) (simp_all add: b0_def hd0_def)
      moreover have "r' = []" using True \<open>r = []\<close> by (simp add: r'_def smult_def)
      ultimately show ?thesis by (simp add: a0)
    next
      case False
      then have "r' \<noteq> []" using len_r' by (cases b) auto
      have "length (tl r) < length (smult k0 (tl b))"
        using Cons.prems(1) False by (cases b; cases r) simp_all
      then have "last r' = last (smult k0 (tl b))"
        unfolding r'_def by (rule last_padd_greater)
      also have "\<dots> = k0 * last b" using False by (simp add: last_smult last_tl)
      finally show ?thesis using \<open>r' \<noteq> []\<close> by simp
    qed
    then have c: "c = k0" using lb by (simp add: c_def \<open>r1 = r'\<close>)
    define u where "u = psub (a0 # r1) (smult c b)"
    have res: "pdivmod (a0 # a) b = (c # q1, butlast u)"
      using False by (simp add: qr c_def u_def Let_def)
    have len_u: "length u = length b"
      using len_eq nb by (cases b) (simp_all add: u_def length_psub)
    then have "u \<noteq> []" using nb by auto
    have "last u = last (a0 # r1) - last (smult c b)"
      unfolding u_def by (rule last_psub_eq) (use len_eq nb in \<open>cases b; simp\<close>)+
    then have "last u = 0"
      using \<open>last (a0 # r') = k0 * last b\<close> by (simp add: last_smult nb c \<open>r1 = r'\<close>)
    have "peval (butlast u) x = peval u x" for x :: int
      using \<open>u \<noteq> []\<close> \<open>last u = 0\<close> by (rule peval_butlast)
    then have "peval (butlast u) x = peval r x" for x :: int
      by (simp add: u_def peval_psub peval_smult ev_r1 ev_r' ev_r ev_b a0 c algebra_simps)
    moreover have "peval (c # q1) x = peval k x" for x :: int
      by (simp add: ev_q1 ev_k c)
    ultimately show ?thesis unfolding res by (simp only: fst_conv snd_conv strip_eq_iff_eval) simp
  qed
qed

instance zpoly :: idom_divide
proof
  fix a b :: zpoly
  show "a div 0 = 0"
    by (simp add: coeffs_inject[symmetric] divide_zpoly.rep_eq zero_zpoly.rep_eq pquot_def)
  assume "b \<noteq> 0"
  then have nb: "coeffs b \<noteq> []" by (simp add: coeffs_Nil_iff)
  then have lb: "last (coeffs b) \<noteq> 0"
    using coeffs_normal[of b] by (simp add: strip_eq_self_iff)
  have "peval (coeffs (a * b)) x = peval (coeffs b) x * peval (coeffs a) x + peval [] x" for x :: int
    using ev_simps(6)[of a b x] by (simp add: ev_def mult.commute)
  with pdivmod_exact[OF nb lb, of "[]" "coeffs (a * b)" "coeffs a"] nb
  have "strip (fst (pdivmod (coeffs (a * b)) (coeffs b))) = strip (coeffs a)" by simp
  then have "coeffs (a * b div b) = coeffs a"
    using nb by (simp add: divide_zpoly.rep_eq pquot_def coeffs_normal)
  then show "a * b div b = a" by (simp add: coeffs_inject)
qed

instantiation zpoly :: equal
begin

definition equal_zpoly :: "zpoly \<Rightarrow> zpoly \<Rightarrow> bool" where
  "equal_zpoly p q \<longleftrightarrow> coeffs p = coeffs q"

instance
  by standard (simp add: equal_zpoly_def coeffs_inject)

end

text \<open>
  The examples of the docstrings with the default argument, the generator of
  \<^verbatim>\<open>ZZ['q']\<close>, as coefficient lists: \<^verbatim>\<open>q_binomial(5,1)\<close>, \<^verbatim>\<open>q_binomial(4,2,p)\<close>,
  \<^verbatim>\<open>q_int(3)\<close>, \<^verbatim>\<open>q_factorial(3)\<close>, \<^verbatim>\<open>q_catalan_number(4)\<close> and
  \<^verbatim>\<open>q_jordan(Partition([3,2,1]),q)\<close>.
\<close>

lemma docstring_default_argument:
  "map_sum id coeffs (q_binomial 5 1 (Polynomial polygen) polygen) = Inr [1, 1, 1, 1, 1]"
  "map_sum id coeffs (q_binomial 4 2 (Polynomial polygen) polygen) = Inr [1, 1, 2, 1, 1]"
  "map_sum id coeffs (q_int 3 polygen) = Inr [1, 1, 1]"
  "map_sum id coeffs (q_factorial 3 polygen) = Inr [1, 2, 2, 1]"
  "map_sum id coeffs (q_catalan_number 4 polygen) = Inr [1, 0, 1, 1, 2, 1, 2, 1, 2, 1, 1, 0, 1]"
  "map_sum id coeffs (q_jordan [3, 2, 1] polygen) = Inr [1, 5, 14, 24, 16]"
  by code_simp+

section \<open>Evaluation of the cyclotomic products\<close>

section \<open>Evaluation commutes with the algorithms\<close>

lemma ev_peval: "ev (peval l p) x = peval l (ev p x :: 'a::comm_ring_1)"
  by (induction l) simp_all

lemma ev_cyclotomic_value: "ev (cyclotomic_value d p) x = cyclotomic_value d (ev p x :: 'a::comm_ring_1)"
  by (simp add: cyclotomic_value_def ev_peval)

lemma ev_cyclo_product: "ev (cyclo_product n k p) x = cyclo_product n k (ev p x :: 'a::comm_ring_1)"
  by (simp add: cyclo_product_def ev_prod_list ev_cyclotomic_value comp_def)

lemma ev_naive_denominator:
  "ev (naive_denominator p k) x = naive_denominator (ev p x :: 'a::idom_divide) k"
  by (simp add: naive_denominator_def ev_prod_list comp_def)

section \<open>Gaussian binomials modulo four\<close>

lemma prod_mod_four:
  fixes f :: "nat \<Rightarrow> int"
  assumes "\<And>i. i \<in> S \<Longrightarrow> f i mod 4 = 1"
  shows "(\<Prod>i\<in>S. f i) mod 4 = 1"
  using assms
proof (induction S rule: infinite_finite_induct)
  case (insert x S)
  have "(f x * (\<Prod>i\<in>S. f i)) mod 4 = ((f x mod 4) * ((\<Prod>i\<in>S. f i) mod 4)) mod 4"
    by (rule mod_mult_eq[symmetric])
  also have "\<dots> = 1" using insert by simp
  finally show ?case using insert.hyps by simp
qed simp_all

lemma one_minus_power_two_mod: "2 \<le> i \<Longrightarrow> (1 - 2 ^ i) mod 4 = (1::int)"
proof -
  assume "2 \<le> i"
  then obtain j where "i = j + 2" by (metis add.commute le_Suc_ex)
  then have "(1 - 2 ^ i :: int) = 1 + 4 * (- (2 ^ j))" by simp
  then show ?thesis by (simp only: mod_mult_self2) simp
qed

lemma one_minus_power_four_mod: "1 \<le> i \<Longrightarrow> (1 - 4 ^ i) mod 4 = (1::int)"
proof -
  assume "1 \<le> i"
  then obtain j where "i = j + 1" by (metis add.commute le_Suc_ex)
  then have "(1 - 4 ^ i :: int) = 1 + 4 * (- (4 ^ j))" by simp
  then show ?thesis by (simp only: mod_mult_self2) simp
qed

lemma cyclo_product_mod_four:
  assumes "1 \<le> k" and "k < n"
  shows "cyclo_product n k (2::int) mod 4 = 3" and "cyclo_product n k (4::int) mod 4 = 1"
    and "naive_denominator (4::int) k mod 4 = 1"
proof -
  have k: "0 \<le> k" "k \<le> n" using assms by simp_all
  have n2: "naive_numerator (2::int) n k mod 4 = 1"
    unfolding naive_numerator_prod[OF k]
    by (rule prod_mod_four) (use assms in \<open>auto intro!: one_minus_power_two_mod\<close>)
  have n4: "naive_numerator (4::int) n k mod 4 = 1"
    unfolding naive_numerator_prod[OF k]
    by (rule prod_mod_four) (use assms in \<open>auto intro!: one_minus_power_four_mod\<close>)
  show d4: "naive_denominator (4::int) k mod 4 = 1"
    unfolding naive_denominator_prod[OF k(1)]
    by (rule prod_mod_four) (auto intro!: one_minus_power_four_mod)
  have d2: "naive_denominator (2::int) k mod 4 = 3"
  proof -
    have "{0<..nat k} = insert 1 {1<..nat k}" using assms by auto
    then have "naive_denominator (2::int) k = (1 - 2 ^ 1) * (\<Prod>i\<in>{1<..nat k}. 1 - 2 ^ i)"
      unfolding naive_denominator_prod[OF k(1)] by simp
    moreover have "(\<Prod>i\<in>{1<..nat k}. 1 - 2 ^ i) mod 4 = (1::int)"
      by (rule prod_mod_four) (auto intro!: one_minus_power_two_mod)
    ultimately show ?thesis by simp presburger
  qed
  have "(naive_denominator (2::int) k * cyclo_product n k 2) mod 4 = 1"
    using n2 by (simp only: naive_numerator_factorisation[OF k])
  then have "((naive_denominator (2::int) k mod 4) * cyclo_product n k 2) mod 4 = 1"
    by (simp only: mod_mult_left_eq)
  then show "cyclo_product n k (2::int) mod 4 = 3"
    unfolding d2 by presburger
  have "(naive_denominator (4::int) k * cyclo_product n k 4) mod 4 = 1"
    using n4 by (simp only: naive_numerator_factorisation[OF k])
  then have "((naive_denominator (4::int) k mod 4) * cyclo_product n k 4) mod 4 = 1"
    by (simp only: mod_mult_left_eq)
  then show "cyclo_product n k (4::int) mod 4 = 1"
    unfolding d4 by simp
qed

lemma choose_algo_large:
  "choose_algo 72 36 (Polynomial g) = cyclo_polynomial g"
  by (simp add: choose_algo_def)

section \<open>The claims about \<^verbatim>\<open>q_binomial\<close>\<close>

text \<open>
  C1: for integers \<open>0 \<le> k \<le> n\<close>, \<open>q_binomial(n, k, 1)\<close> is the binomial coefficient
  \<open>n choose k\<close>.  The integer \<open>1\<close> is no polynomial; the theorem also covers a
  polynomial \<open>1\<close> as long as the naive algorithm is chosen for it.
\<close>

theorem q_binomial_at_one:
  assumes "0 \<le> k" and "k \<le> n"
    and "\<And>g. kind = Polynomial g \<Longrightarrow> n \<le> 70 \<or> 4 * min (n - k) k \<le> n"
  shows "q_binomial (of_int n) (of_int k) kind (1::'a::idom_divide) = Inr (of_nat (nat n choose nat k))"
proof -
  let ?k = "min (n - k) k"
  have k': "0 \<le> ?k" "?k \<le> n" using assms by simp_all
  have "choose_algo n ?k kind \<noteq> cyclo_polynomial g" for g
    using assms(3) by (cases kind) (auto simp: choose_algo_def rat_quarter_le)
  then have "q_binomial (of_int n) (of_int k) kind (1::'a) = Inr (cyclo_product n ?k 1)"
    unfolding q_binomial_cyclo[OF assms(1,2)] by (cases "choose_algo n ?k kind") auto
  also have "cyclo_product n ?k (1::'a) = of_nat (nat n choose nat ?k)"
    by (rule cyclo_product_one[OF k'])
  also have "nat n choose nat ?k = nat n choose nat k"
  proof (cases "n - k \<le> k")
    case True
    then have "nat ?k = nat n - nat k" using assms by (simp add: min_def nat_diff_distrib)
    moreover have "nat k \<le> nat n" using assms by simp
    ultimately show ?thesis by (simp add: binomial_symmetric[symmetric])
  next
    case False
    then show ?thesis by (simp add: min_def)
  qed
  finally show ?thesis .
qed

theorem q_binomial_at_one_witness:
  "(0::int) \<le> 2 \<and> (2::int) \<le> 5 \<and> q_binomial (of_int 5) (of_int 2) Other (1::int) = Inr 10"
proof -
  have "(nat 5 choose nat 2) = 10" by code_simp
  with q_binomial_at_one[where 'a = int, of 2 5 Other] show ?thesis by simp
qed

text \<open>
  C2: the algorithms of \<open>q_binomial\<close> are claimed to return the same value wherever
  more than one applies.  The naive and the cyclotomic generic algorithm do (lemma
  \<open>naive_step_cyclo\<close>).  The cyclotomic polynomial algorithm does not look at \<open>q\<close>: for
  \<open>n = 72\<close>, \<open>k = 36\<close> and the polynomial \<open>q = x\<^sup>2\<close> of \<^verbatim>\<open>ZZ['x']\<close> the source chooses it
  and returns the Gaussian binomial in \<open>x\<close>, while the naive algorithm computes the one
  in \<open>x\<^sup>2\<close>; the two differ (already modulo 4 at \<open>x = 2\<close>).
\<close>

theorem q_binomial_polynomial_square:
  "q_binomial 72 36 (Polynomial polygen) (polygen ^ 2) = Inr (cyclo_product 72 36 polygen)
   \<and> naive_step (polygen ^ 2) 72 36 = Some (cyclo_product 72 36 (polygen ^ 2))
   \<and> cyclo_product 72 36 (polygen ^ 2) \<noteq> cyclo_product 72 36 polygen"
proof -
  have 1: "q_binomial 72 36 (Polynomial polygen) (polygen ^ 2) = Inr (cyclo_product 72 36 polygen)"
    using q_binomial_in_range[of 36 72 "Polynomial polygen" "polygen ^ 2"]
    by (simp add: choose_algo_large)
  have "ev (naive_denominator (polygen ^ 2) 36) (2::int) mod 4 = 1"
    using cyclo_product_mod_four(3)[of 36 72] by (simp add: ev_naive_denominator)
  then have "naive_denominator (polygen ^ 2) 36 \<noteq> 0" by auto
  then have 2: "naive_step (polygen ^ 2) 72 36 = Some (cyclo_product 72 36 (polygen ^ 2))"
    by (simp add: naive_step_cyclo)
  have "ev (cyclo_product 72 36 (polygen ^ 2)) (2::int) mod 4 = 1"
    using cyclo_product_mod_four(2)[of 36 72] by (simp add: ev_cyclo_product)
  moreover have "ev (cyclo_product 72 36 polygen) (2::int) mod 4 = 3"
    using cyclo_product_mod_four(1)[of 36 72] by (simp add: ev_cyclo_product)
  ultimately have 3: "cyclo_product 72 36 (polygen ^ 2) \<noteq> cyclo_product 72 36 polygen"
    by auto
  from 1 2 3 show ?thesis by simp
qed

text \<open>
  C3: for integers \<open>0 \<le> k \<le> n\<close> and every \<open>q\<close>, \<open>q_binomial(n, k, q)\<close> equals
  \<open>q_binomial(n, n - k, q)\<close>: both calls continue with the same \<open>min(n - k, k)\<close>.
\<close>

theorem q_binomial_symmetry:
  assumes "0 \<le> k" and "k \<le> n"
  shows "q_binomial (of_int n) (of_int k) kind q = q_binomial (of_int n) (of_int (n - k)) kind q"
proof -
  have "min (n - k) k = min (n - (n - k)) (n - k)" by simp
  with assms show ?thesis
    by (simp add: q_binomial_def min.commute)
qed

theorem q_binomial_symmetry_witness:
  "(0::int) \<le> 1 \<and> (1::int) \<le> 4
   \<and> q_binomial (of_int 4) (of_int 1) Other (2::int) = Inr 15
   \<and> q_binomial (of_int 4) (of_int (4 - 1)) Other (2::int) = Inr 15"
proof -
  have "q_binomial (of_int 4) (of_int 1) Other (2::int) = Inr 15" by code_simp
  with q_binomial_symmetry[of 1 4 Other "2::int"] show ?thesis by simp
qed

text \<open>
  C4: for an integer \<open>n \<ge> 0\<close> and an integer \<open>k\<close> with \<open>k < 0\<close> or \<open>k > n\<close>,
  \<open>q_binomial(n, k, q)\<close> returns zero for every \<open>q\<close>; it is a result, not an error, and
  nothing of \<open>q\<close> is computed.
\<close>

theorem q_binomial_out_of_range:
  assumes "0 \<le> n" and "k < 0 \<or> n < k"
  shows "q_binomial (of_int n) (of_int k) kind q = Inr 0"
  using assms by (auto simp add: q_binomial_def)

theorem q_binomial_out_of_range_witness:
  "(0::int) \<le> 4 \<and> (4::int) < 5 \<and> q_binomial (of_int 4) (of_int 5) Symbolic (2::int) = Inr 0"
  using q_binomial_out_of_range[of 4 5 Symbolic "2::int"] by simp

text \<open>
  C5: for integers \<open>0 \<le> k \<le> n\<close> and a \<open>q\<close> that is a polynomial (the default
  included), the naive algorithm is chosen exactly when \<open>n \<le> 70\<close> or \<open>k' \<le> n / 4\<close>, the
  division being that of the reals and \<open>k' = min(k, n - k)\<close>; otherwise the
  cyclotomic polynomial algorithm is chosen, and \<open>q_binomial\<close> returns what the chosen
  algorithm computes.
\<close>

theorem q_binomial_polynomial_choice:
  assumes "0 \<le> k" and "k \<le> n" and "k' = min (n - k) k"
  shows "choose_algo n k' (Polynomial g) =
           (if n \<le> 70 \<or> real_of_int k' \<le> real_of_int n / 4 then naive else cyclo_polynomial g)
       \<and> q_binomial (of_int n) (of_int k) (Polynomial g) q =
           (if n \<le> 70 \<or> real_of_int k' \<le> real_of_int n / 4
            then (case naive_step q n k' of Some v \<Rightarrow> Inr v | None \<Rightarrow> Inr (cyclo_product n k' q))
            else Inr (cyclo_product n k' g))"
proof -
  have c: "(real_of_int k' \<le> real_of_int n / 4) = ((of_int k' :: rat) \<le> of_int n / 4)"
    by (simp only: rat_quarter_le real_quarter_le)
  have "choose_algo n k' (Polynomial g) =
          (if n \<le> 70 \<or> real_of_int k' \<le> real_of_int n / 4 then naive else cyclo_polynomial g)"
    unfolding c by (simp add: choose_algo_def)
  moreover have "q_binomial (of_int n) (of_int k) (Polynomial g) q =
      (case choose_algo n k' (Polynomial g) of
         naive \<Rightarrow> (case naive_step q n k' of Some v \<Rightarrow> Inr v | None \<Rightarrow> Inr (cyclo_product n k' q))
       | cyclo_generic \<Rightarrow> Inr (cyclo_product n k' q)
       | cyclo_polynomial g \<Rightarrow> Inr (cyclo_product n k' g))"
    using assms(1,2) unfolding assms(3) by (simp add: q_binomial_def Let_def)
  ultimately show ?thesis by simp
qed

theorem q_binomial_polynomial_choice_witness:
  "(0::int) \<le> 36 \<and> (36::int) \<le> 72 \<and> (36::int) = min (72 - 36) 36
   \<and> choose_algo 72 36 (Polynomial polygen) = cyclo_polynomial polygen
   \<and> q_binomial (of_int 72) (of_int 36) (Polynomial polygen) polygen = Inr (cyclo_product 72 36 polygen)
   \<and> (0::int) \<le> 1 \<and> (1::int) \<le> 5 \<and> (1::int) = min (5 - 1) 1
   \<and> choose_algo 5 1 (Polynomial polygen) = naive"
  using q_binomial_polynomial_choice[of 36 72 36 polygen polygen]
    q_binomial_polynomial_choice[of 1 5 1 polygen polygen]
  by simp

text \<open>
  C10: for an integer \<open>n \<ge> 0\<close> and every \<open>q\<close>, roots of unity and \<open>1\<close> included,
  \<open>q_binomial(n, 0, q)\<close> and \<open>q_binomial(n, n, q)\<close> are \<open>1\<close>: \<open>k\<close> becomes \<open>0\<close>, the
  products of the naive algorithm are empty, and it does not fall through to the
  cyclotomic algorithm.
\<close>

theorem q_binomial_zero_full:
  fixes q :: "'a::idom_divide"
  assumes "0 \<le> n"
  shows "q_binomial (of_int n) 0 kind q = Inr 1
       \<and> q_binomial (of_int n) (of_int n) kind q = Inr 1
       \<and> naive_step q n 0 = Some 1"
  using assms
  by (cases kind)
     (simp_all add: q_binomial_def choose_algo_def naive_step_zero cyclo_product_def cyclo_index_zero)

theorem q_binomial_zero_full_witness:
  "(0::int) \<le> 6
   \<and> q_binomial (of_int 6) 0 Other \<i> = Inr 1
   \<and> q_binomial (of_int 6) (of_int 6) Other \<i> = Inr 1
   \<and> naive_step \<i> 6 0 = Some 1"
  using q_binomial_zero_full[of 6 Other \<i>] by simp

section \<open>\<^verbatim>\<open>q_jordan\<close>\<close>

text \<open>
  C8: for every partition \<open>t\<close>, the empty one included, \<open>q_jordan(t, 1)\<close> raises
  \<^verbatim>\<open>ValueError("q must not be equal to 1")\<close>; the test is the first statement of the
  function, before the base case and the recursion.
\<close>

theorem q_jordan_q_one: "q_jordan t 1 = Inl (ValueError ''q must not be equal to 1'' [])"
  by (subst q_jordan.simps) simp

theorem q_jordan_q_one_witness:
  "q_jordan [4, 3, 1] (1::int) = Inl (ValueError ''q must not be equal to 1'' [])
   \<and> q_jordan [] (1::int) = Inl (ValueError ''q must not be equal to 1'' [])"
  using q_jordan_q_one[of "[4, 3, 1]"] q_jordan_q_one[of "[]"] by simp

lemma fold_Inr:
  assumes "\<And>i tj res. i \<in> set is \<Longrightarrow> \<exists>st'. f i (Inr (tj, res)) = Inr st'"
  shows "\<exists>st'. fold f is (Inr st) = Inr st'"
  using assms
proof (induction "is" arbitrary: st)
  case Nil
  then show ?case by simp
next
  case (Cons i "is")
  obtain tj res where st: "st = (tj, res)" by (cases st)
  have "i \<in> set (i # is)" by simp
  from Cons.prems[OF this] obtain st1 where st1: "f i (Inr (tj, res)) = Inr st1" by blast
  have "\<exists>st'. fold f is (Inr st1) = Inr st'"
  proof (rule Cons.IH)
    fix j tj' res'
    assume "j \<in> set is"
    then have "j \<in> set (i # is)" by simp
    then show "\<exists>st'. f j (Inr (tj', res')) = Inr st'" by (rule Cons.prems)
  qed
  then show ?case by (simp add: st st1)
qed

lemma q_jordan_returns: "q \<noteq> 1 \<Longrightarrow> \<exists>v. q_jordan t q = Inr v"
proof (induction t q rule: q_jordan.induct)
  case (1 t q)
  show ?case
  proof (cases "length t = 0")
    case True
    with "1.prems" show ?thesis by (subst q_jordan.simps) simp
  next
    case False
    let ?f = "\<lambda>i st. case st of Inl e \<Rightarrow> Inl e
                  | Inr (tj, res) \<Rightarrow>
                      let ti = t ! i in
                      if ti > tj then
                        (case q_jordan (Partition (t[i := ti - 1])) q of
                           Inl e \<Rightarrow> Inl e
                         | Inr v \<Rightarrow> Inr (ti, res + v * ((q ^ ti - q ^ tj) div (q - 1))))
                      else Inr (tj, res)"
    have step: "\<exists>st'. ?f i (Inr (tj, res)) = Inr st'" if "i \<in> set (rev [0..<length t])" for i tj res
    proof (cases "tj < t ! i")
      case True
      from "1.IH"[OF "1.prems" False that refl True "1.prems"]
      obtain v where "q_jordan (Partition (t[i := t ! i - 1])) q = Inr v" by blast
      with True show ?thesis by (simp add: Let_def)
    next
      case False
      then show ?thesis by simp
    qed
    obtain st' where "fold ?f (rev [0..<length t]) (Inr (0, 0)) = Inr st'"
      using fold_Inr[of "rev [0..<length t]" ?f "(0, 0)"] step by blast
    with "1.prems" False show ?thesis by (subst q_jordan.simps) simp
  qed
qed

text \<open>
  C9: for every partition \<open>t\<close> and every \<open>q \<noteq> 1\<close> the recursion of \<open>q_jordan\<close>
  ends with a value: each recursive call is on the partition with one positive part
  decremented, whose size is one less.  (That the recursion is well founded is the
  termination proof of \<open>q_jordan\<close> above, by the same measure.)
\<close>

theorem q_jordan_total:
  "(q \<noteq> 1 \<longrightarrow> (\<exists>v. q_jordan t q = Inr v))
   \<and> (\<forall>i < length t. 0 < t ! i \<longrightarrow> sum_list (Partition (t[i := t ! i - 1])) + 1 = sum_list t)"
  using q_jordan_returns sum_list_decrement by blast

theorem q_jordan_total_witness:
  "(2::int) \<noteq> 1 \<and> q_jordan [3, 2, 1] (2::int) = Inr 515
   \<and> (2::nat) < length [3, 2, 1::nat] \<and> 0 < [3, 2, 1::nat] ! 2
   \<and> sum_list (Partition ([3, 2, 1][2 := [3, 2, 1] ! 2 - 1])) + 1 = sum_list [3, 2, 1::nat]"
proof -
  have "q_jordan [3, 2, 1] (2::int) = Inr 515" by code_simp
  moreover have "sum_list (Partition ([3, 2, 1][2 := [3, 2, 1] ! 2 - 1])) + 1 = sum_list [3, 2, 1::nat]"
    using q_jordan_total[of "2::int" "[3, 2, 1]", THEN conjunct2, THEN spec, of 2] by simp
  ultimately show ?thesis by simp
qed

subsection \<open>A partition with one part\<close>

lemma q_int_nonneg: "0 \<le> i \<Longrightarrow> q_int (of_int i) p = Inr (sum_list (map (\<lambda>j. p ^ j) [0..<nat i]))"
  by (simp add: q_int_def)

lemma collect_Inr: "collect (map (\<lambda>x. Inr (f x)) xs) = Inr (map f xs)"
  by (induction xs) simp_all

lemma collect_q_int:
  assumes "0 \<le> a"
  shows "collect (map (\<lambda>i. q_int (of_int i) p) [a..b])
       = Inr (map (\<lambda>i. sum_list (map (\<lambda>j. p ^ j) [0..<nat i])) [a..b])"
proof -
  have "map (\<lambda>i. q_int (of_int i) p) [a..b]
      = map (\<lambda>i. Inr (sum_list (map (\<lambda>j. p ^ j) [0..<nat i]))) [a..b]"
    using assms by (intro map_cong refl q_int_nonneg) simp
  then show ?thesis by (simp only: collect_Inr)
qed

lemma q_factorial_nat:
  "q_factorial (of_nat n) p = Inr (prod_list (map (\<lambda>i. sum_list (map (\<lambda>j. p ^ j) [0..<nat i])) [1..int n]))"
  by (simp add: q_factorial_def collect_q_int)

lemma sum_list_powers: "sum_list (map (\<lambda>j. q ^ j) [0..<m]) = (\<Sum>j<m. q ^ j)"
  by (simp add: sum_list_sum_nth atLeast0LessThan)

lemma geometric_div:
  assumes "(q::'a::idom_divide) \<noteq> 1"
  shows "(q ^ m - 1) div (q - 1) = sum_list (map (\<lambda>j. q ^ j) [0..<m])"
proof -
  have "q ^ m - 1 = (q - 1) * (\<Sum>j<m. q ^ j)" by (rule power_diff_1_eq)
  moreover have "q - 1 \<noteq> 0" using assms by simp
  ultimately show ?thesis by (simp add: sum_list_powers)
qed

lemma q_jordan_single_step:
  assumes "q \<noteq> 1" and "0 < n"
  shows "q_jordan [n] q =
     (case q_jordan (Partition [n - 1]) q of
        Inl e \<Rightarrow> Inl e
      | Inr v \<Rightarrow> Inr (v * ((q ^ n - 1) div (q - 1))))"
  using assms by (subst q_jordan.simps) (simp add: Let_def split: sum.splits)

lemma q_factorial_prod_Suc:
  "prod_list (map (\<lambda>i. sum_list (map (\<lambda>j. (q::'a::idom_divide) ^ j) [0..<nat i])) [1..int (Suc n)])
 = prod_list (map (\<lambda>i. sum_list (map (\<lambda>j. q ^ j) [0..<nat i])) [1..int n])
   * sum_list (map (\<lambda>j. q ^ j) [0..<Suc n])"
proof -
  have "[1..int (Suc n)] = [1..int n] @ [int (Suc n)]"
    by (subst upto_rec2) simp_all
  moreover have "nat (int (Suc n)) = Suc n" by simp
  ultimately show ?thesis
    by (simp only: map_append prod_list.append list.map prod_list.Cons prod_list.Nil mult_1_right)
qed

lemma q_jordan_single:
  fixes q :: "'a::idom_divide"
  assumes "q \<noteq> 1"
  shows "q_jordan [Suc n] q
       = Inr (prod_list (map (\<lambda>i. sum_list (map (\<lambda>j. q ^ j) [0..<nat i])) [1..int (Suc n)]))"
proof (induction n)
  case 0
  have "q_jordan [] q = Inr 1" using assms by (subst q_jordan.simps) simp
  then show ?case
    using assms by (simp add: q_jordan_single_step Partition_def geometric_div)
next
  case (Suc n)
  have "Partition [Suc n] = [Suc n]" by (simp add: Partition_def)
  then have "q_jordan [Suc (Suc n)] q =
     Inr (prod_list (map (\<lambda>i. sum_list (map (\<lambda>j. q ^ j) [0..<nat i])) [1..int (Suc n)])
          * ((q ^ Suc (Suc n) - 1) div (q - 1)))"
    using assms Suc by (simp add: q_jordan_single_step[of q "Suc (Suc n)"])
  then show ?case
    by (simp only: geometric_div[OF assms] q_factorial_prod_Suc[of q "Suc n"])
qed

text \<open>
  C7: for an integer \<open>n \<ge> 1\<close> and every \<open>q \<noteq> 1\<close>, \<open>q_jordan\<close> of the partition
  \<open>[n]\<close> equals \<open>q_factorial(n, q)\<close>.
\<close>

theorem q_jordan_single_part:
  fixes q :: "'a::idom_divide"
  assumes "1 \<le> n" and "q \<noteq> 1"
  shows "q_jordan [n] q = q_factorial (of_nat n) q"
proof -
  from assms(1) obtain m where "n = Suc m" by (cases n) simp_all
  then show ?thesis
    using q_jordan_single[OF assms(2), of m] by (simp only: q_factorial_nat)
qed

theorem q_jordan_single_part_witness:
  "(1::nat) \<le> 11 \<and> (5::int) \<noteq> 1
   \<and> q_jordan [11] (5::int) = q_factorial (of_nat 11) 5"
  using q_jordan_single_part[of 11 "5::int"] by simp

section \<open>\<^verbatim>\<open>q_catalan_number\<close>\<close>

definition catalan :: "nat \<Rightarrow> nat" where
  "catalan n = (2 * n choose n) div (n + 1)"

lemma Suc_dvd_central_binomial: "Suc n dvd (2 * n choose n)"
proof (cases n)
  case 0
  then show ?thesis by simp
next
  case (Suc m)
  have e: "Suc (n + m) = 2 * n" using Suc by simp
  have "Suc n * (Suc (n + m) choose Suc n) = Suc m * (Suc (n + m) choose n)"
    by (rule Suc_times_binomial_add)
  then have "Suc n * (2 * n choose Suc n) = n * (2 * n choose n)"
    by (simp only: e Suc[symmetric])
  then have "Suc n dvd n * (2 * n choose n)"
    by (metis dvd_triv_left)
  moreover have "coprime (Suc n) n"
    by (simp add: coprime_commute)
  ultimately show ?thesis by (simp add: coprime_dvd_mult_right_iff)
qed

lemma catalan_times: "catalan n * (n + 1) = (2 * n choose n)"
  unfolding catalan_def Suc_eq_plus1[symmetric]
  by (rule dvd_div_mult_self) (rule Suc_dvd_central_binomial)

lemma prod_interval_fact:
  assumes "a \<le> b"
  shows "fact a * (\<Prod>i\<in>{a<..b}. i) = (fact b :: nat)"
  using assms
proof (induction b)
  case 0
  then show ?case by simp
next
  case (Suc b)
  show ?case
  proof (cases "a = Suc b")
    case True
    then show ?thesis by simp
  next
    case False
    with Suc.prems have "a \<le> b" by simp
    moreover have "{a<..Suc b} = insert (Suc b) {a<..b}" using \<open>a \<le> b\<close> by auto
    ultimately show ?thesis using Suc.IH by (simp add: algebra_simps)
  qed
qed

lemma catalan_numerator:
  "(\<Prod>i\<in>{n + 1<..2 * n}. i) = catalan n * fact n"
proof (cases "n = 0")
  case True
  then show ?thesis by (simp add: catalan_def)
next
  case False
  define P where "P = (\<Prod>i\<in>{n + 1<..2 * n}. i)"
  define C where "C = catalan n"
  define F :: nat where "F = fact n"
  have "fact (n + 1) * P = (fact (2 * n) :: nat)"
    unfolding P_def by (rule prod_interval_fact) (use False in simp)
  then have B: "F * (n + 1) * P = fact (2 * n)" by (simp add: F_def algebra_simps)
  have "fact n * fact (2 * n - n) * (2 * n choose n) = (fact (2 * n) :: nat)"
    by (rule binomial_fact_lemma) simp
  then have "F * F * (2 * n choose n) = fact (2 * n)" by (simp add: F_def)
  then have "F * F * (C * (n + 1)) = fact (2 * n)" by (simp only: C_def catalan_times)
  with B have "(F * (n + 1)) * P = (F * (n + 1)) * (C * F)" by (simp only: ac_simps)
  moreover have "F * (n + 1) \<noteq> 0" by (simp add: F_def)
  ultimately have "P = C * F" by (simp only: mult_cancel_left) simp
  then show ?thesis by (simp only: P_def C_def F_def)
qed

lemma q_int_of_nat: "q_int (of_nat j) p = Inr (\<Sum>i<j. p ^ i)"
  using q_int_nonneg[of "int j" p] by (simp add: sum_list_powers)

lemma prod_list_geometric_upto:
  fixes p :: "'a::{comm_ring_1,divide}"
  assumes "0 < a"
  shows "prod_list (map (\<lambda>i. sum_list (map (\<lambda>j. p ^ j) [0..<nat i])) [a..b])
       = (\<Prod>j\<in>{nat a..nat b}. \<Sum>i<j. p ^ i)"
  using prod_list_upto_nat[OF assms, of "\<lambda>j. \<Sum>i<j. p ^ i" b]
  by (simp add: sum_list_powers)

lemma q_catalan_number_unfold:
  fixes p :: "'a::{comm_ring_1,divide}"
  shows "q_catalan_number (of_nat n) p =
     (if (\<Prod>j\<in>{2..n}. \<Sum>i<j. p ^ i) = 0 then Inl ZeroDivisionError
      else Inr ((\<Prod>j\<in>{n + 2..2 * n}. \<Sum>i<j. p ^ i) div (\<Prod>j\<in>{2..n}. \<Sum>i<j. p ^ i)))"
proof -
  have 1: "prod_list (map (\<lambda>i. sum_list (map (\<lambda>j. p ^ j) [0..<nat i])) [int n + 2..2 * int n])
      = (\<Prod>j\<in>{n + 2..2 * n}. \<Sum>i<j. p ^ i)"
    using prod_list_geometric_upto[of "int n + 2" p "2 * int n"]
    by (simp add: nat_add_distrib nat_mult_distrib)
  have 2: "prod_list (map (\<lambda>i. sum_list (map (\<lambda>j. p ^ j) [0..<nat i])) [2..int n])
      = (\<Prod>j\<in>{2..n}. \<Sum>i<j. p ^ i)"
    using prod_list_geometric_upto[of 2 p "int n"] by simp
  show ?thesis
    by (simp add: q_catalan_number_def collect_q_int 1 2)
qed

lemma geometric_at_one: "(\<Sum>i<j. (1::'a::comm_ring_1) ^ i) = of_nat j"
  by simp

text \<open>
  C6: for an integer \<open>n \<ge> 0\<close>, \<open>q_catalan_number(n, p)\<close> is the product of
  \<open>q_int(j, p)\<close> for \<open>j = n+2, ..., 2n\<close> divided by the product of \<open>q_int(j, p)\<close> for
  \<open>j = 2, ..., n\<close> (the division raises when the divisor is zero), it is \<open>1\<close> for
  \<open>n = 0\<close>, and at \<open>p = 1\<close> it is the Catalan number \<open>(2n choose n) / (n + 1)\<close>.
\<close>

theorem q_catalan_number_value:
  fixes p :: "'a::{comm_ring_1,divide}"
  shows "q_catalan_number (of_nat n) p =
     (if (\<Prod>j\<in>{2..n}. \<Sum>i<j. p ^ i) = 0 then Inl ZeroDivisionError
      else Inr ((\<Prod>j\<in>{n + 2..2 * n}. \<Sum>i<j. p ^ i) div (\<Prod>j\<in>{2..n}. \<Sum>i<j. p ^ i)))
   \<and> (\<forall>j. q_int (of_nat j) p = Inr (\<Sum>i<j. p ^ i))
   \<and> q_catalan_number 0 (r::'b::idom_divide) = Inr 1
   \<and> q_catalan_number (of_nat n) (1::'c::{idom_divide,ring_char_0}) = Inr (of_nat (catalan n))
   \<and> catalan n * (n + 1) = (2 * n choose n)"
proof -
  have "q_catalan_number 0 r = Inr 1"
    using q_catalan_number_unfold[of 0 r] by simp
  moreover have "q_catalan_number (of_nat n) (1::'c) = Inr (of_nat (catalan n))"
  proof -
    have den: "(\<Prod>j\<in>{2..n}. \<Sum>i<j. (1::'c) ^ i) = of_nat (fact n)"
    proof -
      have s: "{2..n} = {1<..n}" by auto
      have "(\<Prod>j\<in>{1<..n}. j) = fact n"
      proof (cases "n = 0")
        case True
        then show ?thesis by simp
      next
        case False
        then show ?thesis using prod_interval_fact[of 1 n] by simp
      qed
      moreover have "(\<Prod>j\<in>{2..n}. \<Sum>i<j. (1::'c) ^ i) = of_nat (\<Prod>j\<in>{1<..n}. j)"
        by (simp only: geometric_at_one of_nat_prod s)
      ultimately show ?thesis by (simp only:)
    qed
    have num: "(\<Prod>j\<in>{n + 2..2 * n}. \<Sum>i<j. (1::'c) ^ i) = of_nat (catalan n) * of_nat (fact n)"
    proof -
      have s: "{n + 2..2 * n} = {n + 1<..2 * n}" by auto
      have "(\<Prod>j\<in>{n + 2..2 * n}. \<Sum>i<j. (1::'c) ^ i) = of_nat (\<Prod>j\<in>{n + 1<..2 * n}. j)"
        by (simp only: geometric_at_one of_nat_prod s)
      then show ?thesis by (simp only: catalan_numerator of_nat_mult)
    qed
    have "(of_nat (fact n) :: 'c) \<noteq> 0" by simp
    then show ?thesis
      unfolding q_catalan_number_unfold den num by (simp del: of_nat_fact)
  qed
  ultimately show ?thesis
    using q_catalan_number_unfold[of n p] q_int_of_nat[of _ p] catalan_times[of n] by blast
qed

theorem q_catalan_number_value_witness:
  "q_catalan_number (of_nat 4) (2::int) = Inr 6477
   \<and> q_int (of_nat 3) (2::int) = Inr 7
   \<and> q_catalan_number 0 (2::int) = Inr 1
   \<and> q_catalan_number (of_nat 4) (1::int) = Inr 14
   \<and> catalan 4 * (4 + 1) = (2 * 4 choose 4)"
proof -
  have c: "catalan 4 = 14" by code_simp
  have "q_catalan_number (of_nat 4) (2::int) = Inr 6477" by code_simp
  moreover have "q_int (of_nat 3) (2::int) = Inr 7" by code_simp
  ultimately show ?thesis
    using q_catalan_number_value[where 'a = int and 'b = int and 'c = int, of 4 2 2] by (simp add: c)
qed

end
